theory Spec2Isabelle
  imports Complex_Main "HOL-Library.Word" "HOL-Library.Finite_Map" "HOL-Library.Multiset"
begin

section \<open>The TTL and size bounded cache (pkg/cache/smart_cache.go)\<close>

text \<open>
  Time and durations. A Go \<open>time.Time\<close> is modelled as the number of nanoseconds since
  the zero instant (\<open>IsZero\<close> holds exactly at 0); a \<open>time.Duration\<close> is its signed
  nanosecond count. The cache never multiplies or adds two durations, and \<open>Time.Add\<close>
  saturates only beyond \<open>2^63\<close> seconds, so both are plain integers here. The model
  is sequential: each call on the cache is one step, and reads the clock as one instant
  \<open>now\<close>, which the model takes as a parameter.
\<close>

type_synonym Time = int

type_synonym Duration = int

text \<open>
  The values stored are Go \<open>interface{}\<close> values. Only the dynamic type matters to the
  cache (in \<open>estimateSize\<close>); values of any other type carry a payload of type \<open>'a\<close>.
\<close>

datatype 'a goval =
    GString string
  | GBytes "8 word list"
  | GInt int
  | GUint nat
  | GFloat real
  | GBool bool
  | GOther 'a

fun estimateSize :: "'a goval \<Rightarrow> nat" where
  "estimateSize (GString v) = length v"
| "estimateSize (GBytes v) = length v"
| "estimateSize (GInt v) = 8"
| "estimateSize (GUint v) = 8"
| "estimateSize (GFloat v) = 8"
| "estimateSize (GBool v) = 1"
| "estimateSize (GOther v) = 64"

text \<open>
  An item of the cache. Its fields \<open>value\<close> and \<open>size\<close> are \<open>itemValue\<close> and
  \<open>itemSize\<close> here; \<open>accessCount\<close> is an \<open>int64\<close>.
\<close>

record 'a SmartCacheItem =
  itemValue :: "'a goval"
  expiration :: Time
  accessed :: Time
  accessCount :: "64 word"
  itemSize :: nat

text \<open>
  The cache: the item map, the default TTL, the three \<open>int64\<close> counters and the size
  limit. The lock, the ticker and the stop channel have no sequential content.
\<close>

record 'a SmartCache =
  items :: "(string, 'a SmartCacheItem) fmap"
  ttl :: Duration
  hits :: "64 word"
  misses :: "64 word"
  evictions :: "64 word"
  sizeLimit :: int

record CacheStats =
  Hits :: "64 word"
  Misses :: "64 word"
  Evictions :: "64 word"
  Size :: nat
  HitRate :: real

text \<open>\<open>len(sc.items)\<close>.\<close>

definition len_items :: "(string, 'b) fmap \<Rightarrow> nat" where
  "len_items m = fcard (fmdom m)"

text \<open>Go's integer division truncates towards zero.\<close>

definition go_quot :: "int \<Rightarrow> int \<Rightarrow> int" where
  "go_quot a b = sgn a * sgn b * (\<bar>a\<bar> div \<bar>b\<bar>)"

text \<open>
  \<open>NewSmartCache\<close>: \<open>time.NewTicker\<close> panics on a non-positive interval, so the
  constructor has a result only when \<open>ttl / 4\<close> is positive.
\<close>

definition NewSmartCache :: "Duration \<Rightarrow> int \<Rightarrow> 'a SmartCache option" where
  "NewSmartCache t limit =
     (if go_quot t 4 \<le> 0 then None
      else Some \<lparr>items = fmempty, ttl = t, hits = 0, misses = 0, evictions = 0,
                  sizeLimit = limit\<rparr>)"

definition IsExpired :: "'a SmartCacheItem \<Rightarrow> Time \<Rightarrow> bool" where
  "IsExpired item now \<longleftrightarrow> expiration item \<noteq> 0 \<and> expiration item < now"

definition deleteExpired :: "'a SmartCache \<Rightarrow> string \<Rightarrow> 'a SmartCache" where
  "deleteExpired sc key =
     (case fmlookup (items sc) key of
        None \<Rightarrow> sc
      | Some _ \<Rightarrow> sc\<lparr>items := fmdrop key (items sc), evictions := evictions sc + 1\<rparr>)"

text \<open>
  \<open>Get\<close> returns \<open>(value, found)\<close>; \<open>Some v\<close> stands for \<open>(v, true)\<close> and \<open>None\<close> for
  \<open>(nil, false)\<close>. The second component is the cache afterwards.
\<close>

definition Get :: "'a SmartCache \<Rightarrow> string \<Rightarrow> Time \<Rightarrow> 'a goval option \<times> 'a SmartCache" where
  "Get sc key now =
     (case fmlookup (items sc) key of
        None \<Rightarrow> (None, sc\<lparr>misses := misses sc + 1\<rparr>)
      | Some item \<Rightarrow>
          if IsExpired item now
          then (let sc1 = deleteExpired sc key in (None, sc1\<lparr>misses := misses sc1 + 1\<rparr>))
          else (Some (itemValue item),
                sc\<lparr>items := fmupd key
                         (item\<lparr>accessed := now, accessCount := accessCount item + 1\<rparr>)
                         (items sc),
                   hits := hits sc + 1\<rparr>))"

text \<open>
  \<open>evictLRU\<close>. Go enumerates a map in an order of the runtime's choosing; the model takes
  the enumeration as the list \<open>order\<close> of the keys. The scan keeps the keys whose access
  time is the oldest seen so far, starting from \<open>([], now)\<close>.
\<close>

fun oldest_scan ::
  "(string, 'a SmartCacheItem) fmap \<Rightarrow> string list \<Rightarrow> string list \<times> Time \<Rightarrow> string list \<times> Time"
where
  "oldest_scan m [] acc = acc"
| "oldest_scan m (key # ks) (oldestKeys, oldestTime) =
     (case fmlookup m key of
        None \<Rightarrow> oldest_scan m ks (oldestKeys, oldestTime)
      | Some item \<Rightarrow>
          if accessed item < oldestTime \<or> oldestKeys = []
          then oldest_scan m ks ([key], accessed item)
          else if accessed item = oldestTime
          then oldest_scan m ks (oldestKeys @ [key], oldestTime)
          else oldest_scan m ks (oldestKeys, oldestTime))"

text \<open>The eviction loop: \<open>for i := 0; i < len(oldestKeys) && i < count; i++\<close>.\<close>

fun evict_keys :: "'a SmartCache \<Rightarrow> string list \<Rightarrow> nat \<Rightarrow> 'a SmartCache" where
  "evict_keys sc [] n = sc"
| "evict_keys sc (key # ks) 0 = sc"
| "evict_keys sc (key # ks) (Suc n) =
     evict_keys (sc\<lparr>items := fmdrop key (items sc), evictions := evictions sc + 1\<rparr>) ks n"

definition evictLRU :: "'a SmartCache \<Rightarrow> int \<Rightarrow> Time \<Rightarrow> string list \<Rightarrow> 'a SmartCache" where
  "evictLRU sc cnt now order =
     (if cnt \<le> 0 then sc
      else evict_keys sc (fst (oldest_scan (items sc) order ([], now))) (nat cnt))"

definition Set :: "'a SmartCache \<Rightarrow> string \<Rightarrow> 'a goval \<Rightarrow> Duration \<Rightarrow> Time \<Rightarrow> string list \<Rightarrow> 'a SmartCache" where
  "Set sc key v t now order =
     (let sz = estimateSize v;
          sc1 = (if 0 < sizeLimit sc \<and> sizeLimit sc \<le> int (len_items (items sc))
                 then evictLRU sc 1 now order else sc);
          expi = (if 0 < t then now + t else now + ttl sc)
      in sc1\<lparr>items := fmupd key
                  \<lparr>itemValue = v, expiration = expi, accessed = now, accessCount = 1,
                   itemSize = sz\<rparr>
                  (items sc1)\<rparr>)"

definition Delete :: "'a SmartCache \<Rightarrow> string \<Rightarrow> 'a SmartCache" where
  "Delete sc key =
     (case fmlookup (items sc) key of
        None \<Rightarrow> sc
      | Some _ \<Rightarrow> sc\<lparr>items := fmdrop key (items sc), evictions := evictions sc + 1\<rparr>)"

text \<open>
  \<open>Clear\<close> first replaces the map by a fresh one and then adds the length of
  \<open>sc.items\<close>, which is the fresh map by then, to the evictions counter.
\<close>

definition Clear :: "'a SmartCache \<Rightarrow> 'a SmartCache" where
  "Clear sc =
     (let sc1 = sc\<lparr>items := fmempty\<rparr>
      in sc1\<lparr>evictions := evictions sc1 + of_nat (len_items (items sc1))\<rparr>)"

text \<open>
  \<open>GetStats\<close>. The conversion to \<open>float64\<close> and the floating point division are
  idealised as the exact quotient.
\<close>

definition GetStats :: "'a SmartCache \<Rightarrow> CacheStats" where
  "GetStats sc =
     (let total = hits sc + misses sc;
          hitRate = (if 0 < sint total then real_of_int (sint (hits sc)) / real_of_int (sint total)
                     else 0)
      in \<lparr>Hits = hits sc, Misses = misses sc, Evictions = evictions sc,
          Size = len_items (items sc), HitRate = hitRate\<rparr>)"

text \<open>The sweep: one pass over the enumeration, deleting what has expired.\<close>

fun cleanupExpired :: "'a SmartCache \<Rightarrow> Time \<Rightarrow> string list \<Rightarrow> 'a SmartCache" where
  "cleanupExpired sc now [] = sc"
| "cleanupExpired sc now (key # ks) =
     (case fmlookup (items sc) key of
        None \<Rightarrow> cleanupExpired sc now ks
      | Some item \<Rightarrow>
          if IsExpired item now
          then cleanupExpired
                 (sc\<lparr>items := fmdrop key (items sc), evictions := evictions sc + 1\<rparr>) now ks
          else cleanupExpired sc now ks)"

text \<open>
  An enumeration of a map lists each of its keys once.
\<close>

definition enumerates :: "string list \<Rightarrow> (string, 'b) fmap \<Rightarrow> bool" where
  "enumerates order m \<longleftrightarrow> distinct order \<and> set order = fmdom' m"

text \<open>
  A history of the cache: the calls made on it, in the order in which they take the lock.
  \<open>OpSweep\<close> is one tick of the cleanup routine.
\<close>

datatype 'a cache_op =
    OpGet string Time
  | OpSet string "'a goval" Duration Time "string list"
  | OpDelete string
  | OpClear
  | OpSweep Time "string list"

fun apply_op :: "'a SmartCache \<Rightarrow> 'a cache_op \<Rightarrow> 'a SmartCache" where
  "apply_op sc (OpGet key now) = snd (Get sc key now)"
| "apply_op sc (OpSet key v t now order) = Set sc key v t now order"
| "apply_op sc (OpDelete key) = Delete sc key"
| "apply_op sc OpClear = Clear sc"
| "apply_op sc (OpSweep now order) = cleanupExpired sc now order"

fun run_ops :: "'a SmartCache \<Rightarrow> 'a cache_op list \<Rightarrow> 'a SmartCache" where
  "run_ops sc [] = sc"
| "run_ops sc (op # ops) = run_ops (apply_op sc op) ops"

section \<open>The collector of the worker pool and the data fetcher\<close>

text \<open>
  Go \<open>error\<close> values: an error of the router client, the two context errors, the
  pool's \<open>TimeoutError\<close> with its fields \<open>Timeout\<close>, \<open>Received\<close>, \<open>Total\<close> and
  \<open>Message\<close>, and \<open>fmt.Errorf(msg + ": %w", err)\<close>, which wraps an error.
\<close>

datatype goerror =
    ClientError string
  | Canceled
  | DeadlineExceeded
  | TimeoutError Duration nat nat string
  | Errorf string goerror

text \<open>
  The \<open>interface{}\<close> value a task returns: the untyped \<open>nil\<close>, or a pointer (\<open>None\<close> is
  the nil pointer) tagged with its dynamic type, one of the four model types. The type
  assertions of \<open>FetchData\<close> test the tag.
\<close>

datatype 'p dynval =
    DNil
  | DSystemStatus "'p option"
  | DDeviceList "'p option"
  | DWanInfo "'p option"
  | DWifiDetailAll "'p option"

text \<open>
  A task is its id and its work; the work, a closure, is represented by what calling it
  returns. The field \<open>ID\<close> of a task is \<open>TaskID\<close> here, \<open>ID\<close> being the field of a
  result.
\<close>

record 'p Task =
  TaskID :: nat
  Work :: "'p dynval \<times> goerror option"

record 'p Result =
  ID :: nat
  Value :: "'p dynval"
  Error :: "goerror option"
  Elapsed :: Duration

text \<open>What a worker sends for a task it has run (\<open>worker\<close>, the body of the loop).\<close>

definition worker_result :: "'p Task \<Rightarrow> Duration \<Rightarrow> 'p Result" where
  "worker_result task el =
     \<lparr>ID = TaskID task, Value = fst (Work task), Error = snd (Work task), Elapsed = el\<rparr>"

definition zero_Result :: "'p Result" where
  "zero_Result = \<lparr>ID = 0, Value = DNil, Error = None, Elapsed = 0\<rparr>"

text \<open>
  A function that waits on channels either returns, is still waiting when the events it
  was given are used up, or panics.
\<close>

datatype 'r exec = Done 'r | Waiting | Panicked

text \<open>
  The collecting loop of \<open>ExecuteWithTimeout\<close>. Each iteration is one \<open>select\<close>; which
  case it takes is the scheduler's choice and is given as a list of events.
  \<open>results[result.ID] = result\<close> panics when the index is out of range.
\<close>

datatype 'p select_event =
    GotResult "'p Result"
  | CtxDone goerror
  | TimerFired

fun collect ::
  "nat \<Rightarrow> Duration \<Rightarrow> 'p Result list \<Rightarrow> nat \<Rightarrow> 'p select_event list
   \<Rightarrow> ('p Result list option \<times> goerror option) exec"
where
  "collect tot tmo results received [] =
     (if received < tot then Waiting else Done (Some results, None))"
| "collect tot tmo results received (ev # evs) =
     (if received < tot then
        (case ev of
           GotResult result \<Rightarrow>
             if ID result < length results
             then collect tot tmo (results[ID result := result]) (received + 1) evs
             else Panicked
         | CtxDone err \<Rightarrow> Done (None, Some err)
         | TimerFired \<Rightarrow>
             Done (None, Some (TimeoutError tmo received tot ''task execution timeout'')))
      else Done (Some results, None))"

text \<open>
  The pool as the collector sees it: the schedule says which submitted task's result
  arrives next (by its position in the batch, with the time its work took), or that the
  context or the timer fired first. A position that names no submitted task delivers
  nothing.
\<close>

datatype schedule_step =
    Arrives nat Duration
  | CtxFires goerror
  | TimerFires

fun delivered :: "'p Task list \<Rightarrow> schedule_step list \<Rightarrow> 'p select_event list" where
  "delivered tasks [] = []"
| "delivered tasks (Arrives i el # ss) =
     (if i < length tasks then GotResult (worker_result (tasks ! i) el) # delivered tasks ss
      else delivered tasks ss)"
| "delivered tasks (CtxFires err # ss) = CtxDone err # delivered tasks ss"
| "delivered tasks (TimerFires # ss) = TimerFired # delivered tasks ss"

text \<open>The submission loop: \<open>task.ID = i\<close>.\<close>

fun number_tasks :: "nat \<Rightarrow> 'p Task list \<Rightarrow> 'p Task list" where
  "number_tasks i [] = []"
| "number_tasks i (task # tasks) = task\<lparr>TaskID := i\<rparr> # number_tasks (Suc i) tasks"

definition ExecuteWithTimeout ::
  "'p Task list \<Rightarrow> Duration \<Rightarrow> schedule_step list
   \<Rightarrow> ('p Result list option \<times> goerror option) exec"
where
  "ExecuteWithTimeout tasks tmo sched =
     (if length tasks = 0 then Done (None, None)
      else collect (length tasks) tmo (replicate (length tasks) zero_Result) 0
             (delivered (number_tasks 0 tasks) sched))"

text \<open>
  The fetcher. What the context lets a retry loop observe is given by three fields:
  whether \<open>ctx.Done()\<close> is ready at the check before attempt \<open>i\<close>, whether it fires
  before the timer during the sleep after attempt \<open>i\<close>, and \<open>ctx.Err()\<close>.
\<close>

record DataFetcher =
  timeout :: Duration
  maxRetries :: int
  retryDelay :: Duration

record ctx_view =
  doneBefore :: "nat \<Rightarrow> bool"
  doneInSleep :: "nat \<Rightarrow> bool"
  ctxErr :: goerror

text \<open>What the loop does besides returning: the calls it makes and the sleeps.\<close>

datatype effect = Attempt nat | Slept Duration | SleepAborted

text \<open>
  \<open>fetchWithRetry\<close>. \<open>fetchFunc i\<close> is what the \<open>i\<close>-th call of the fetch function
  returns. The \<open>break\<close> on the last retry leaves the \<open>select\<close>, after which the loop
  counter is incremented and the loop condition fails.
\<close>

function fetchWithRetry_loop ::
  "DataFetcher \<Rightarrow> ctx_view \<Rightarrow> (nat \<Rightarrow> 'p dynval \<times> goerror option) \<Rightarrow> nat \<Rightarrow> goerror option
   \<Rightarrow> effect list \<Rightarrow> ('p dynval \<times> goerror option) \<times> effect list"
where
  "fetchWithRetry_loop df ctx fetchFunc i lastError tr =
     (if int i < maxRetries df then
        if doneBefore ctx i then ((DNil, Some (ctxErr ctx)), tr)
        else
          (case fetchFunc i of
             (result, None) \<Rightarrow> ((result, None), tr @ [Attempt i])
           | (result, Some err) \<Rightarrow>
               if int i = maxRetries df - 1
               then fetchWithRetry_loop df ctx fetchFunc (i + 1) (Some err) (tr @ [Attempt i])
               else if doneInSleep ctx i
               then ((DNil, Some (ctxErr ctx)), tr @ [Attempt i, SleepAborted])
               else fetchWithRetry_loop df ctx fetchFunc (i + 1) (Some err)
                      (tr @ [Attempt i, Slept (retryDelay df)]))
      else ((DNil, lastError), tr))"
  by pat_completeness auto
termination
  by (relation "measure (\<lambda>(df, ctx, fetchFunc, i, lastError, tr). nat (maxRetries df - int i))")
     auto

definition fetchWithRetry ::
  "DataFetcher \<Rightarrow> ctx_view \<Rightarrow> (nat \<Rightarrow> 'p dynval \<times> goerror option)
   \<Rightarrow> ('p dynval \<times> goerror option) \<times> effect list"
where
  "fetchWithRetry df ctx fetchFunc = fetchWithRetry_loop df ctx fetchFunc 0 None []"

text \<open>
  The router client: for each of its four operations, what the \<open>i\<close>-th call returns, a
  pointer and an error.
\<close>

record 'p RouterClient =
  GetSystemStatus :: "nat \<Rightarrow> 'p option \<times> goerror option"
  GetDeviceList :: "nat \<Rightarrow> 'p option \<times> goerror option"
  GetWanInfo :: "nat \<Rightarrow> 'p option \<times> goerror option"
  GetWifiDetails :: "nat \<Rightarrow> 'p option \<times> goerror option"

record 'p RouterData =
  SystemStatus :: "'p option"
  DeviceList :: "'p option"
  WanInfo :: "'p option"
  WifiDetails :: "'p option"

definition empty_RouterData :: "'p RouterData" where
  "empty_RouterData = \<lparr>SystemStatus = None, DeviceList = None, WanInfo = None, WifiDetails = None\<rparr>"

text \<open>
  The aggregation loop of \<open>FetchData\<close>, over the results in slice order. Its
  \<open>switch result.ID\<close> with the four type assertions is \<open>store_result\<close>.
\<close>

definition store_result :: "'p Result \<Rightarrow> 'p RouterData \<Rightarrow> 'p RouterData" where
  "store_result result data =
     (if ID result = 0 then
        (case Value result of DSystemStatus status \<Rightarrow> data\<lparr>SystemStatus := status\<rparr>
         | _ \<Rightarrow> data)
      else if ID result = 1 then
        (case Value result of DDeviceList devices \<Rightarrow> data\<lparr>DeviceList := devices\<rparr>
         | _ \<Rightarrow> data)
      else if ID result = 2 then
        (case Value result of DWanInfo wan \<Rightarrow> data\<lparr>WanInfo := wan\<rparr>
         | _ \<Rightarrow> data)
      else if ID result = 3 then
        (case Value result of DWifiDetailAll wifi \<Rightarrow> data\<lparr>WifiDetails := wifi\<rparr>
         | _ \<Rightarrow> data)
      else data)"

fun process_results ::
  "'p Result list \<Rightarrow> 'p RouterData \<Rightarrow> goerror option \<Rightarrow> 'p RouterData \<times> goerror option"
where
  "process_results [] data firstError = (data, firstError)"
| "process_results (result # results) data firstError =
     (case Error result of
        Some err \<Rightarrow>
          process_results results data (if firstError = None then Some err else firstError)
      | None \<Rightarrow> process_results results (store_result result data) firstError)"

text \<open>The four tasks \<open>FetchData\<close> builds; task \<open>i\<close> watches the context through \<open>views i\<close>.\<close>

definition fetch_tasks ::
  "DataFetcher \<Rightarrow> (nat \<Rightarrow> ctx_view) \<Rightarrow> 'p RouterClient \<Rightarrow> 'p Task list"
where
  "fetch_tasks df views client =
     [\<lparr>TaskID = 0, Work = fst (fetchWithRetry df (views 0)
          (\<lambda>i. (DSystemStatus (fst (GetSystemStatus client i)), snd (GetSystemStatus client i))))\<rparr>,
      \<lparr>TaskID = 1, Work = fst (fetchWithRetry df (views 1)
          (\<lambda>i. (DDeviceList (fst (GetDeviceList client i)), snd (GetDeviceList client i))))\<rparr>,
      \<lparr>TaskID = 2, Work = fst (fetchWithRetry df (views 2)
          (\<lambda>i. (DWanInfo (fst (GetWanInfo client i)), snd (GetWanInfo client i))))\<rparr>,
      \<lparr>TaskID = 3, Work = fst (fetchWithRetry df (views 3)
          (\<lambda>i. (DWifiDetailAll (fst (GetWifiDetails client i)), snd (GetWifiDetails client i))))\<rparr>]"

text \<open>
  \<open>FetchData\<close> returns \<open>(*RouterData, error)\<close>; \<open>None\<close> in the first component is the nil
  pointer.
\<close>

definition FetchData ::
  "DataFetcher \<Rightarrow> (nat \<Rightarrow> ctx_view) \<Rightarrow> 'p RouterClient \<Rightarrow> schedule_step list
   \<Rightarrow> ('p RouterData option \<times> goerror option) exec"
where
  "FetchData df views client sched =
     (case ExecuteWithTimeout (fetch_tasks df views client) (timeout df) sched of
        Waiting \<Rightarrow> Waiting
      | Panicked \<Rightarrow> Panicked
      | Done (results, Some err) \<Rightarrow>
          Done (None, Some (Errorf ''failed to fetch data concurrently'' err))
      | Done (None, None) \<Rightarrow> Done (Some empty_RouterData, None)
      | Done (Some results, None) \<Rightarrow>
          (case process_results results empty_RouterData None of
             (data, Some firstError) \<Rightarrow>
               Done (Some data, Some (Errorf ''some data fetches failed'' firstError))
           | (data, None) \<Rightarrow> Done (Some data, None)))"

section \<open>The worker pool as a transition system (pkg/concurrent/worker_pool.go)\<close>

text \<open>
  The goroutines of a pool interleave at their channel operations. A worker is at the
  \<open>select\<close> at the head of its loop, is running a task, is at the inner \<open>select\<close>
  with a result to send, or has returned.
\<close>

datatype 'p worker_state =
    AtSelect
  | Running "'p Task"
  | Sending "'p Result"
  | Exited

text \<open>
  The goroutine that owns the pool submits a batch and then calls \<open>Stop\<close>, whose four
  statements are \<open>cancel()\<close>, \<open>close(taskChan)\<close>, \<open>wg.Wait()\<close> and \<open>close(resultChan)\<close>.
\<close>

datatype 'p caller_state =
    Submitting "'p Task list"
  | StopCloseTasks
  | StopWait
  | StopCloseResults
  | Stopped

text \<open>
  The pool: the two buffered channels with their \<open>closed\<close> flags, whether the context is
  cancelled, the worker goroutines, the owner, every result sent on the result channel
  so far, and whether a goroutine has panicked.
\<close>

record 'p WorkerPool =
  workers :: nat
  taskChan :: "'p Task list"
  taskClosed :: bool
  resultChan :: "'p Result list"
  resultClosed :: bool
  cancelled :: bool
  procs :: "'p worker_state list"
  caller :: "'p caller_state"
  sent :: "'p Result list"
  panicked :: bool

text \<open>\<open>NewWorkerPool(workers)\<close> followed by \<open>Start()\<close>, with the batch still to submit.\<close>

definition started_pool :: "nat \<Rightarrow> 'p Task list \<Rightarrow> 'p WorkerPool" where
  "started_pool n tasks =
     \<lparr>workers = n, taskChan = [], taskClosed = False, resultChan = [], resultClosed = False,
      cancelled = False, procs = replicate n AtSelect, caller = Submitting tasks, sent = [],
      panicked = False\<rparr>"

text \<open>Both channels are made with capacity \<open>workers * 2\<close>.\<close>

definition chan_cap :: "'p WorkerPool \<Rightarrow> nat" where
  "chan_cap s = workers s * 2"

inductive pool_step :: "'p WorkerPool \<Rightarrow> 'p WorkerPool \<Rightarrow> bool" where
  submit_send:
    "caller s = Submitting (t # ts) \<Longrightarrow> \<not> taskClosed s \<Longrightarrow> length (taskChan s) < chan_cap s \<Longrightarrow>
     pool_step s (s\<lparr>taskChan := taskChan s @ [t], caller := Submitting ts\<rparr>)"
| submit_send_closed:
    "caller s = Submitting (t # ts) \<Longrightarrow> taskClosed s \<Longrightarrow>
     pool_step s (s\<lparr>panicked := True\<rparr>)"
| submit_cancelled:
    "caller s = Submitting (t # ts) \<Longrightarrow> cancelled s \<Longrightarrow>
     pool_step s (s\<lparr>caller := Submitting ts\<rparr>)"
| stop_cancel:
    "caller s = Submitting [] \<Longrightarrow>
     pool_step s (s\<lparr>cancelled := True, caller := StopCloseTasks\<rparr>)"
| stop_close_tasks:
    "caller s = StopCloseTasks \<Longrightarrow> \<not> taskClosed s \<Longrightarrow>
     pool_step s (s\<lparr>taskClosed := True, caller := StopWait\<rparr>)"
| stop_close_tasks_twice:
    "caller s = StopCloseTasks \<Longrightarrow> taskClosed s \<Longrightarrow>
     pool_step s (s\<lparr>panicked := True\<rparr>)"
| stop_wait:
    "caller s = StopWait \<Longrightarrow> \<forall>w \<in> set (procs s). w = Exited \<Longrightarrow>
     pool_step s (s\<lparr>caller := StopCloseResults\<rparr>)"
| stop_close_results:
    "caller s = StopCloseResults \<Longrightarrow> \<not> resultClosed s \<Longrightarrow>
     pool_step s (s\<lparr>resultClosed := True, caller := Stopped\<rparr>)"
| stop_close_results_twice:
    "caller s = StopCloseResults \<Longrightarrow> resultClosed s \<Longrightarrow>
     pool_step s (s\<lparr>panicked := True\<rparr>)"
| worker_takes:
    "i < length (procs s) \<Longrightarrow> procs s ! i = AtSelect \<Longrightarrow> taskChan s = t # q \<Longrightarrow>
     pool_step s (s\<lparr>taskChan := q, procs := (procs s)[i := Running t]\<rparr>)"
| worker_sees_closed:
    "i < length (procs s) \<Longrightarrow> procs s ! i = AtSelect \<Longrightarrow> taskChan s = [] \<Longrightarrow> taskClosed s \<Longrightarrow>
     pool_step s (s\<lparr>procs := (procs s)[i := Exited]\<rparr>)"
| worker_sees_cancel:
    "i < length (procs s) \<Longrightarrow> procs s ! i = AtSelect \<Longrightarrow> cancelled s \<Longrightarrow>
     pool_step s (s\<lparr>procs := (procs s)[i := Exited]\<rparr>)"
| worker_runs:
    "i < length (procs s) \<Longrightarrow> procs s ! i = Running t \<Longrightarrow>
     pool_step s (s\<lparr>procs := (procs s)[i := Sending (worker_result t el)]\<rparr>)"
| worker_sends:
    "i < length (procs s) \<Longrightarrow> procs s ! i = Sending r \<Longrightarrow> \<not> resultClosed s \<Longrightarrow>
     length (resultChan s) < chan_cap s \<Longrightarrow>
     pool_step s (s\<lparr>resultChan := resultChan s @ [r], sent := sent s @ [r],
                    procs := (procs s)[i := AtSelect]\<rparr>)"
| worker_sends_closed:
    "i < length (procs s) \<Longrightarrow> procs s ! i = Sending r \<Longrightarrow> resultClosed s \<Longrightarrow>
     pool_step s (s\<lparr>panicked := True\<rparr>)"
| worker_drops:
    "i < length (procs s) \<Longrightarrow> procs s ! i = Sending r \<Longrightarrow> cancelled s \<Longrightarrow>
     pool_step s (s\<lparr>procs := (procs s)[i := Exited]\<rparr>)"
| reader_receives:
    "resultChan s = r # q \<Longrightarrow>
     pool_step s (s\<lparr>resultChan := q\<rparr>)"

text \<open>The states a pool can reach.\<close>

inductive pool_reach :: "'p WorkerPool \<Rightarrow> 'p WorkerPool \<Rightarrow> bool" where
  reach_start: "pool_reach s s"
| reach_step: "pool_reach s s' \<Longrightarrow> pool_step s' s'' \<Longrightarrow> pool_reach s s''"

section \<open>Notions used to state the properties\<close>

text \<open>
  None of the following is code of the repository: these are the predicates and
  measures in which the theorems below speak about the functions above.
\<close>

text \<open>The key has an entry in the map and that entry has expired.\<close>

definition expired_in :: "(string, 'a SmartCacheItem) fmap \<Rightarrow> Time \<Rightarrow> string \<Rightarrow> bool" where
  "expired_in m now k = (case fmlookup m k of None \<Rightarrow> False | Some item \<Rightarrow> IsExpired item now)"

text \<open>The number of \<open>Get\<close> calls in a history.\<close>

fun is_get :: "'a cache_op \<Rightarrow> bool" where
  "is_get (OpGet key now) = True"
| "is_get _ = False"

definition count_gets :: "'a cache_op list \<Rightarrow> nat" where
  "count_gets ops = length (filter is_get ops)"

text \<open>The access time of the entry under a key, and the keys of an enumeration whose
  access time is the least.\<close>

definition accessed_at :: "(string, 'a SmartCacheItem) fmap \<Rightarrow> string \<Rightarrow> Time" where
  "accessed_at m k = accessed (the (fmlookup m k))"

definition oldest_keys :: "(string, 'a SmartCacheItem) fmap \<Rightarrow> string list \<Rightarrow> string list" where
  "oldest_keys m ks = filter (\<lambda>k. \<forall>k' \<in> set ks. accessed_at m k \<le> accessed_at m k') ks"

text \<open>The first key of the enumeration among those accessed the longest ago.\<close>

definition lru_victim :: "(string, 'a SmartCacheItem) fmap \<Rightarrow> string list \<Rightarrow> string option" where
  "lru_victim m order = (case oldest_keys m order of [] \<Rightarrow> None | k # ks \<Rightarrow> Some k)"

text \<open>A schedule in which the results of the listed tasks arrive one after the other.\<close>

definition arrivals :: "(nat \<times> Duration) list \<Rightarrow> schedule_step list" where
  "arrivals arr = map (\<lambda>(i, el). Arrives i el) arr"

text \<open>The slice the collector returns when every task's result arrives, in any order.\<close>

definition results_by_id :: "'p Task list \<Rightarrow> (nat \<times> Duration) list \<Rightarrow> 'p Result list" where
  "results_by_id tasks arr =
     map (\<lambda>i. worker_result ((tasks ! i)\<lparr>TaskID := i\<rparr>) (the (map_of arr i))) [0..<length tasks]"

text \<open>
  What one pass of the aggregation loop leaves in the field with index \<open>i\<close> for a
  result with value \<open>v\<close> and error \<open>e\<close>, when the field held \<open>old\<close>.
\<close>

definition routed :: "nat \<Rightarrow> 'p dynval \<Rightarrow> goerror option \<Rightarrow> 'p option \<Rightarrow> 'p option" where
  "routed i v e old =
     (case e of
        Some err \<Rightarrow> old
      | None \<Rightarrow>
          (case v of
             DNil \<Rightarrow> old
           | DSystemStatus p \<Rightarrow> if i = 0 then p else old
           | DDeviceList p \<Rightarrow> if i = 1 then p else old
           | DWanInfo p \<Rightarrow> if i = 2 then p else old
           | DWifiDetailAll p \<Rightarrow> if i = 3 then p else old))"

definition field_of :: "'p Result \<Rightarrow> 'p option \<Rightarrow> 'p option" where
  "field_of r old = routed (ID r) (Value r) (Error r) old"

text \<open>The first error in a list of optional errors.\<close>

definition first_error :: "goerror option list \<Rightarrow> goerror option" where
  "first_error es = (case filter (\<lambda>e. e \<noteq> None) es of [] \<Rightarrow> None | e # _ \<Rightarrow> e)"

text \<open>Calls of the fetch function among the effects of a retry loop.\<close>

fun is_attempt :: "effect \<Rightarrow> bool" where
  "is_attempt (Attempt i) = True"
| "is_attempt _ = False"

text \<open>Attempts \<open>a, ..., b - 1\<close>, each followed by a full sleep.\<close>

definition failed_rounds :: "Duration \<Rightarrow> nat \<Rightarrow> nat \<Rightarrow> effect list" where
  "failed_rounds d a b = concat (map (\<lambda>i. [Attempt i, Slept d]) [a..<b])"

text \<open>What the work of the \<open>i\<close>-th task of \<open>FetchData\<close> returns.\<close>

definition task_outcome ::
  "DataFetcher \<Rightarrow> (nat \<Rightarrow> ctx_view) \<Rightarrow> 'p RouterClient \<Rightarrow> nat \<Rightarrow> 'p dynval \<times> goerror option"
where
  "task_outcome df views client i = Work (fetch_tasks df views client ! i)"

text \<open>What the aggregation stores in field \<open>i\<close> for the outcome of task \<open>i\<close>.\<close>

definition field_value :: "nat \<Rightarrow> 'p dynval \<times> goerror option \<Rightarrow> 'p option" where
  "field_value i outc = routed i (fst outc) (snd outc) None"

text \<open>Every worker goroutine has returned.\<close>

definition all_exited :: "'p WorkerPool \<Rightarrow> bool" where
  "all_exited s \<longleftrightarrow> (\<forall>w \<in> set (procs s). w = Exited)"

text \<open>
  The order of \<open>Stop\<close> as an invariant: nothing has panicked, the task channel is closed
  only once \<open>Stop\<close> waits or is past waiting, the result channel only once \<open>Stop\<close> has
  returned, and past the wait every worker has returned.
\<close>

definition stop_order :: "'p WorkerPool \<Rightarrow> bool" where
  "stop_order s \<longleftrightarrow>
     \<not> panicked s
     \<and> (taskClosed s \<longrightarrow> caller s = StopWait \<or> caller s = StopCloseResults \<or> caller s = Stopped)
     \<and> (resultClosed s \<longrightarrow> caller s = Stopped)
     \<and> (caller s = StopCloseResults \<or> caller s = Stopped \<longrightarrow> all_exited s)"

text \<open>What identifies a task in its result.\<close>

definition task_sig :: "'p Task \<Rightarrow> nat \<times> 'p dynval \<times> goerror option" where
  "task_sig t = (TaskID t, fst (Work t), snd (Work t))"

definition result_sig :: "'p Result \<Rightarrow> nat \<times> 'p dynval \<times> goerror option" where
  "result_sig r = (ID r, Value r, Error r)"

text \<open>
  The tasks a pool still accounts for: those to submit, those queued, those a worker
  holds, and those whose result was sent.
\<close>

fun holds :: "'p worker_state \<Rightarrow> (nat \<times> 'p dynval \<times> goerror option) multiset" where
  "holds AtSelect = {#}"
| "holds (Running t) = {#task_sig t#}"
| "holds (Sending r) = {#result_sig r#}"
| "holds Exited = {#}"

fun held :: "'p worker_state list \<Rightarrow> (nat \<times> 'p dynval \<times> goerror option) multiset" where
  "held [] = {#}"
| "held (w # ws) = holds w + held ws"

fun to_submit :: "'p caller_state \<Rightarrow> 'p Task list" where
  "to_submit (Submitting ts) = ts"
| "to_submit _ = []"

definition accounted :: "'p WorkerPool \<Rightarrow> (nat \<times> 'p dynval \<times> goerror option) multiset" where
  "accounted s =
     mset (map task_sig (to_submit (caller s))) + mset (map task_sig (taskChan s))
       + held (procs s) + mset (map result_sig (sent s))"

section \<open>Concrete inputs\<close>

text \<open>The caches, clients, contexts and tasks at which the theorems are instantiated.\<close>

text \<open>A new cache of two entries, the same cache filled, and a cache with an entry that
  never expires and one that expired at time 7.\<close>

definition fresh_cache :: "nat SmartCache" where
  "fresh_cache = \<lparr>items = fmempty, ttl = 100, hits = 0, misses = 0, evictions = 0, sizeLimit = 2\<rparr>"

definition full_cache :: "nat SmartCache" where
  "full_cache = Set (Set fresh_cache ''a'' (GInt 1) 0 1 []) ''b'' (GInt 2) 0 2 [''a'']"

definition stale_cache :: "nat SmartCache" where
  "stale_cache =
     \<lparr>items = fmupd ''p'' \<lparr>itemValue = GInt 1, expiration = 0, accessed = 1, accessCount = 1, itemSize = 8\<rparr>
        (fmupd ''q'' \<lparr>itemValue = GInt 2, expiration = 7, accessed = 2, accessCount = 1, itemSize = 8\<rparr>
           fmempty),
      ttl = 100, hits = 0, misses = 0, evictions = 0, sizeLimit = 2\<rparr>"

text \<open>A history with one hit and two misses.\<close>

definition example_ops :: "nat cache_op list" where
  "example_ops = [OpSet ''a'' (GInt 1) 10 5 [], OpGet ''a'' 6, OpGet ''a'' 20, OpGet ''z'' 21]"

text \<open>A context that is never seen cancelled, and one cancelled during the first sleep.\<close>

definition quiet_view :: ctx_view where
  "quiet_view = \<lparr>doneBefore = (\<lambda>i. False), doneInSleep = (\<lambda>i. False), ctxErr = DeadlineExceeded\<rparr>"

definition quiet_views :: "nat \<Rightarrow> ctx_view" where
  "quiet_views i = quiet_view"

definition cancelled_in_first_sleep :: ctx_view where
  "cancelled_in_first_sleep =
     \<lparr>doneBefore = (\<lambda>i. False), doneInSleep = (\<lambda>i. i = 0), ctxErr = Canceled\<rparr>"

text \<open>A fetcher with a timeout of 50 ms, three attempts and 1 ms between them.\<close>

definition example_fetcher :: DataFetcher where
  "example_fetcher = \<lparr>timeout = 50000000, maxRetries = 3, retryDelay = 1000000\<rparr>"

text \<open>
  A client whose four operations succeed, and one whose device list and Wi-Fi details
  fail on every call. Pointers are numbers.
\<close>

definition healthy_client :: "nat RouterClient" where
  "healthy_client =
     \<lparr>GetSystemStatus = (\<lambda>i. (Some 10, None)), GetDeviceList = (\<lambda>i. (Some 20, None)),
      GetWanInfo = (\<lambda>i. (Some 30, None)), GetWifiDetails = (\<lambda>i. (Some 40, None))\<rparr>"

definition flaky_client :: "nat RouterClient" where
  "flaky_client =
     \<lparr>GetSystemStatus = (\<lambda>i. (Some 10, None)),
      GetDeviceList = (\<lambda>i. (None, Some (ClientError ''devices''))),
      GetWanInfo = (\<lambda>i. (Some 30, None)),
      GetWifiDetails = (\<lambda>i. (None, Some (ClientError ''wifi'')))\<rparr>"

text \<open>A fetch function that fails on every call, and one that succeeds on its second call.\<close>

definition always_fails :: "nat \<Rightarrow> nat dynval \<times> goerror option" where
  "always_fails i = (DNil, Some (ClientError ''unreachable''))"

definition second_try :: "nat \<Rightarrow> nat dynval \<times> goerror option" where
  "second_try i = (if i = 1 then (DWanInfo (Some 7), None) else (DNil, Some (ClientError ''busy'')))"

text \<open>A task for the pool.\<close>

definition example_task :: "nat Task" where
  "example_task = \<lparr>TaskID = 0, Work = (DWanInfo (Some 30), None)\<rparr>"

section \<open>Properties of the cache\<close>

lemma cleanupExpired_items:
  "distinct ks \<Longrightarrow>
   items (cleanupExpired sc now ks) =
     fmfilter (\<lambda>k. \<not> (k \<in> set ks \<and> expired_in (items sc) now k)) (items sc)"
proof (induction ks arbitrary: sc)
  case Nil
  then show ?case by simp
next
  case (Cons key ks)
  from Cons.prems have d: "distinct ks" and nk: "key \<notin> set ks" by simp_all
  show ?case
  proof (cases "fmlookup (items sc) key")
    case None
    then show ?thesis
      using Cons.IH [OF d, of sc]
      by (auto simp: expired_in_def intro!: fmap_ext)
  next
    case (Some item)
    show ?thesis
    proof (cases "IsExpired item now")
      case True
      let ?sc = "sc\<lparr>items := fmdrop key (items sc), evictions := evictions sc + 1\<rparr>"
      have "items (cleanupExpired sc now (key # ks)) = items (cleanupExpired ?sc now ks)"
        using Some True by simp
      also have "\<dots> = fmfilter (\<lambda>k. \<not> (k \<in> set ks \<and> expired_in (items ?sc) now k)) (items ?sc)"
        by (rule Cons.IH [OF d])
      also have "\<dots> = fmfilter (\<lambda>k. \<not> (k \<in> set (key # ks) \<and> expired_in (items sc) now k)) (items sc)"
        using Some True nk by (auto simp: expired_in_def intro!: fmap_ext)
      finally show ?thesis .
    next
      case False
      then show ?thesis
        using Some Cons.IH [OF d, of sc]
        by (auto simp: expired_in_def intro!: fmap_ext)
    qed
  qed
qed

lemma cleanupExpired_evictions:
  "distinct ks \<Longrightarrow>
   evictions (cleanupExpired sc now ks) =
     evictions sc + of_nat (length (filter (expired_in (items sc) now) ks))"
proof (induction ks arbitrary: sc)
  case Nil
  then show ?case by simp
next
  case (Cons key ks)
  from Cons.prems have d: "distinct ks" and nk: "key \<notin> set ks" by simp_all
  show ?case
  proof (cases "fmlookup (items sc) key")
    case None
    then show ?thesis
      using Cons.IH [OF d, of sc] by (simp add: expired_in_def)
  next
    case (Some item)
    show ?thesis
    proof (cases "IsExpired item now")
      case True
      let ?sc = "sc\<lparr>items := fmdrop key (items sc), evictions := evictions sc + 1\<rparr>"
      have ex: "expired_in (items sc) now key"
        using Some True by (simp add: expired_in_def)
      have same: "filter (expired_in (items ?sc) now) ks = filter (expired_in (items sc) now) ks"
        using nk by (intro filter_cong) (auto simp: expired_in_def)
      have "evictions (cleanupExpired sc now (key # ks)) = evictions (cleanupExpired ?sc now ks)"
        using Some True by simp
      also have "\<dots> = evictions ?sc + of_nat (length (filter (expired_in (items ?sc) now) ks))"
        by (rule Cons.IH [OF d])
      finally show ?thesis
        using ex same by simp
    next
      case False
      then show ?thesis
        using Some Cons.IH [OF d, of sc] by (simp add: expired_in_def)
    qed
  qed
qed

lemma cleanupExpired_counters:
  "hits (cleanupExpired sc now ks) = hits sc \<and> misses (cleanupExpired sc now ks) = misses sc"
  by (induction ks arbitrary: sc) (auto split: option.splits)

text \<open>
  Claim C10. \<open>Delete\<close> of a present key adds one to the evictions counter and \<open>Delete\<close>
  of an absent key changes nothing; a \<open>Get\<close> that removes an expired entry adds one; the
  sweep adds one for each expired entry and removes exactly those; \<open>Clear\<close> empties the
  cache and leaves hits, misses and evictions as they were.
\<close>

theorem evictions_counter:
  "(fmlookup (items sc) key = Some item \<longrightarrow>
      evictions (Delete sc key) = evictions sc + 1 \<and>
      items (Delete sc key) = fmdrop key (items sc))
   \<and> (fmlookup (items sc) key' = None \<longrightarrow> Delete sc key' = sc)
   \<and> (fmlookup (items sc) key = Some item \<and> IsExpired item now \<longrightarrow>
      evictions (snd (Get sc key now)) = evictions sc + 1 \<and>
      items (snd (Get sc key now)) = fmdrop key (items sc))
   \<and> (enumerates order (items sc) \<longrightarrow>
      evictions (cleanupExpired sc now order) =
        evictions sc + of_nat (length (filter (expired_in (items sc) now) order)) \<and>
      items (cleanupExpired sc now order) =
        fmfilter (\<lambda>k. \<not> expired_in (items sc) now k) (items sc))
   \<and> items (Clear sc) = fmempty
   \<and> evictions (Clear sc) = evictions sc
   \<and> hits (Clear sc) = hits sc
   \<and> misses (Clear sc) = misses sc"
proof -
  have del1: "fmlookup (items sc) key = Some item \<longrightarrow>
      evictions (Delete sc key) = evictions sc + 1 \<and>
      items (Delete sc key) = fmdrop key (items sc)"
    by (simp add: Delete_def)
  have del2: "fmlookup (items sc) key' = None \<longrightarrow> Delete sc key' = sc"
    by (simp add: Delete_def)
  have get: "fmlookup (items sc) key = Some item \<and> IsExpired item now \<longrightarrow>
      evictions (snd (Get sc key now)) = evictions sc + 1 \<and>
      items (snd (Get sc key now)) = fmdrop key (items sc)"
    by (simp add: Get_def deleteExpired_def Let_def)
  have sweep: "enumerates order (items sc) \<longrightarrow>
      evictions (cleanupExpired sc now order) =
        evictions sc + of_nat (length (filter (expired_in (items sc) now) order)) \<and>
      items (cleanupExpired sc now order) =
        fmfilter (\<lambda>k. \<not> expired_in (items sc) now k) (items sc)"
  proof
    assume e: "enumerates order (items sc)"
    then have d: "distinct order" and s: "set order = fmdom' (items sc)"
      by (simp_all add: enumerates_def)
    have "fmfilter (\<lambda>k. \<not> (k \<in> set order \<and> expired_in (items sc) now k)) (items sc) =
          fmfilter (\<lambda>k. \<not> expired_in (items sc) now k) (items sc)"
      using s by (auto intro!: fmap_ext simp: expired_in_def fmlookup_dom'_iff split: option.splits)
    then show "evictions (cleanupExpired sc now order) =
        evictions sc + of_nat (length (filter (expired_in (items sc) now) order)) \<and>
      items (cleanupExpired sc now order) =
        fmfilter (\<lambda>k. \<not> expired_in (items sc) now k) (items sc)"
      using cleanupExpired_items [OF d, of sc now] cleanupExpired_evictions [OF d, of sc now]
      by simp
  qed
  have clear: "items (Clear sc) = fmempty \<and> evictions (Clear sc) = evictions sc
     \<and> hits (Clear sc) = hits sc \<and> misses (Clear sc) = misses sc"
    by (simp add: Clear_def Let_def len_items_def fcard_fempty)
  show ?thesis using del1 del2 get sweep clear by blast
qed

lemma sint_of_nat_small:
  assumes "n < 2 ^ 63"
  shows "sint (of_nat n :: 64 word) = int n"
proof -
  have "sint (of_nat n :: 64 word) = signed_take_bit 63 (int n)"
    by (simp add: signed_of_nat)
  also have "\<dots> = int n"
  proof (rule signed_take_bit_int_eq_self)
    show "- (2 ^ 63) \<le> int n" by simp
    have "int n < int (2 ^ 63)" using assms by (simp only: of_nat_less_iff)
    then show "int n < 2 ^ 63" by simp
  qed
  finally show ?thesis .
qed

lemma evict_keys_counters:
  "hits (evict_keys sc ks n) = hits sc \<and> misses (evict_keys sc ks n) = misses sc
   \<and> ttl (evict_keys sc ks n) = ttl sc \<and> sizeLimit (evict_keys sc ks n) = sizeLimit sc"
  by (induction sc ks n rule: evict_keys.induct) simp_all

lemma Set_counters:
  "hits (Set sc key v t now order) = hits sc \<and> misses (Set sc key v t now order) = misses sc"
  by (simp add: Set_def Let_def evictLRU_def evict_keys_counters)

lemma Delete_counters:
  "hits (Delete sc key) = hits sc \<and> misses (Delete sc key) = misses sc"
  by (simp add: Delete_def split: option.splits)

lemma Clear_counters:
  "hits (Clear sc) = hits sc \<and> misses (Clear sc) = misses sc"
  by (simp add: Clear_def Let_def)

lemma Get_counters:
  "(fst (Get sc key now) \<noteq> None \<and> hits (snd (Get sc key now)) = hits sc + 1
      \<and> misses (snd (Get sc key now)) = misses sc)
   \<or> (fst (Get sc key now) = None \<and> hits (snd (Get sc key now)) = hits sc
      \<and> misses (snd (Get sc key now)) = misses sc + 1)"
  by (simp add: Get_def Let_def deleteExpired_def split: option.splits)

lemma apply_op_counters:
  "\<exists>h m. h + m = (if is_get op then 1 else 0)
     \<and> hits (apply_op sc op) = hits sc + of_nat h
     \<and> misses (apply_op sc op) = misses sc + of_nat m"
proof (cases op)
  case (OpGet key now)
  from Get_counters [of sc key now] show ?thesis
  proof
    assume "fst (Get sc key now) \<noteq> None \<and> hits (snd (Get sc key now)) = hits sc + 1
      \<and> misses (snd (Get sc key now)) = misses sc"
    then have "(1::nat) + 0 = (if is_get op then 1 else 0)
        \<and> hits (apply_op sc op) = hits sc + of_nat 1
        \<and> misses (apply_op sc op) = misses sc + of_nat 0"
      using OpGet by simp
    then show ?thesis by blast
  next
    assume "fst (Get sc key now) = None \<and> hits (snd (Get sc key now)) = hits sc
      \<and> misses (snd (Get sc key now)) = misses sc + 1"
    then have "(0::nat) + 1 = (if is_get op then 1 else 0)
        \<and> hits (apply_op sc op) = hits sc + of_nat 0
        \<and> misses (apply_op sc op) = misses sc + of_nat 1"
      using OpGet by simp
    then show ?thesis by blast
  qed
next
  case other: (OpSet key v t now order)
  have "(0::nat) + 0 = (if is_get op then 1 else 0)
        \<and> hits (apply_op sc op) = hits sc + of_nat 0
        \<and> misses (apply_op sc op) = misses sc + of_nat 0"
    using other Set_counters [of sc key v t now order] by simp
  then show ?thesis by blast
next
  case other: (OpDelete key)
  have "(0::nat) + 0 = (if is_get op then 1 else 0)
        \<and> hits (apply_op sc op) = hits sc + of_nat 0
        \<and> misses (apply_op sc op) = misses sc + of_nat 0"
    using other Delete_counters [of sc key] by simp
  then show ?thesis by blast
next
  case other: OpClear
  have "(0::nat) + 0 = (if is_get op then 1 else 0)
        \<and> hits (apply_op sc op) = hits sc + of_nat 0
        \<and> misses (apply_op sc op) = misses sc + of_nat 0"
    using other Clear_counters [of sc] by simp
  then show ?thesis by blast
next
  case other: (OpSweep now order)
  have "(0::nat) + 0 = (if is_get op then 1 else 0)
        \<and> hits (apply_op sc op) = hits sc + of_nat 0
        \<and> misses (apply_op sc op) = misses sc + of_nat 0"
    using other cleanupExpired_counters [of sc now order] by simp
  then show ?thesis by blast
qed

lemma run_ops_counters:
  "\<exists>h m. h + m = count_gets ops
     \<and> hits (run_ops sc ops) = hits sc + of_nat h
     \<and> misses (run_ops sc ops) = misses sc + of_nat m"
proof (induction ops arbitrary: sc)
  case Nil
  show ?case by (simp add: count_gets_def)
next
  case (Cons op ops)
  obtain h1 m1 where 1: "h1 + m1 = (if is_get op then 1 else 0)"
      "hits (apply_op sc op) = hits sc + of_nat h1"
      "misses (apply_op sc op) = misses sc + of_nat m1"
    using apply_op_counters [of op sc] by blast
  obtain h2 m2 where 2: "h2 + m2 = count_gets ops"
      "hits (run_ops (apply_op sc op) ops) = hits (apply_op sc op) + of_nat h2"
      "misses (run_ops (apply_op sc op) ops) = misses (apply_op sc op) + of_nat m2"
    using Cons.IH [of "apply_op sc op"] by blast
  have a: "(h1 + h2) + (m1 + m2) = count_gets (op # ops)"
    using 1(1) 2(1) by (auto simp: count_gets_def split: if_splits)
  have b: "hits (run_ops sc (op # ops)) = hits sc + of_nat (h1 + h2)"
    using 1(2) 2(2) by simp
  have c: "misses (run_ops sc (op # ops)) = misses sc + of_nat (m1 + m2)"
    using 1(3) 2(3) by simp
  from a b c show ?case by blast
qed

lemma HitRate_fresh:
  assumes new: "NewSmartCache t0 limit = Some sc0"
    and small: "count_gets ops < 2 ^ 63"
  shows "0 \<le> sint (Hits (GetStats (run_ops sc0 ops)))
       \<and> 0 \<le> sint (Misses (GetStats (run_ops sc0 ops)))
       \<and> sint (Hits (GetStats (run_ops sc0 ops))) + sint (Misses (GetStats (run_ops sc0 ops)))
           = int (count_gets ops)
       \<and> HitRate (GetStats (run_ops sc0 ops)) =
           (if count_gets ops = 0 then 0
            else real_of_int (sint (Hits (GetStats (run_ops sc0 ops))))
               / real_of_int (sint (Hits (GetStats (run_ops sc0 ops)))
                            + sint (Misses (GetStats (run_ops sc0 ops)))))"
proof -
  from new have z: "hits sc0 = 0" "misses sc0 = 0"
    by (auto simp: NewSmartCache_def split: if_splits)
  obtain h m where hm: "h + m = count_gets ops"
      "hits (run_ops sc0 ops) = of_nat h" "misses (run_ops sc0 ops) = of_nat m"
    using run_ops_counters [of ops sc0] z by auto
  have hs: "h < 2 ^ 63" and ms: "m < 2 ^ 63" using hm(1) small by linarith+
  have sh: "sint (hits (run_ops sc0 ops)) = int h"
    using hm(2) sint_of_nat_small [OF hs] by simp
  have sm: "sint (misses (run_ops sc0 ops)) = int m"
    using hm(3) sint_of_nat_small [OF ms] by simp
  have "hits (run_ops sc0 ops) + misses (run_ops sc0 ops) = of_nat (h + m)"
    using hm(2,3) by simp
  then have "hits (run_ops sc0 ops) + misses (run_ops sc0 ops) = of_nat (count_gets ops)"
    using hm(1) by simp
  then have st: "sint (hits (run_ops sc0 ops) + misses (run_ops sc0 ops)) = int (count_gets ops)"
    using sint_of_nat_small [OF small] by simp
  show ?thesis
    using sh sm st hm(1) by (simp add: GetStats_def Let_def)
qed

lemma len_items_simps:
  "len_items fmempty = 0"
  "len_items (fmupd k x m) = (if k |\<in>| fmdom m then len_items m else Suc (len_items m))"
  by (simp_all add: len_items_def fcard_fempty fcard_finsert_if)

lemma Set_lookup_same:
  "fmlookup (items (Set sc key v t now order)) key =
     Some \<lparr>itemValue = v, expiration = (if 0 < t then now + t else now + ttl sc),
           accessed = now, accessCount = 1, itemSize = estimateSize v\<rparr>"
  by (simp add: Set_def Let_def)

lemma Get_miss_iff:
  "fmlookup (items c) k = Some item \<Longrightarrow>
     fst (Get c k now) = (if IsExpired item now then None else Some (itemValue item))"
  by (simp add: Get_def Let_def)

lemma Get_expired_removed:
  "fmlookup (items c) k = Some item \<Longrightarrow> IsExpired item now \<Longrightarrow>
     fmlookup (items (snd (Get c k now))) k = None"
  by (simp add: Get_def Let_def deleteExpired_def)

text \<open>
  Claim C5. An entry set at \<open>setTime\<close> with TTL \<open>t\<close> (the default TTL standing in for a
  \<open>t\<close> that is not positive) expires at \<open>setTime + t\<close>: a \<open>Get\<close> strictly after that
  instant is a miss and removes the entry, a \<open>Get\<close> at or before it is a hit. An entry
  with no expiration is a hit at any time, and a \<open>Get\<close> that finds an expired entry
  removes it and reports a miss. Clock readings are after the zero instant.
\<close>

theorem get_ttl_expiry:
  "(0 < setTime \<and> (0 < t \<or> 0 < ttl sc) \<longrightarrow>
      (let sc' = Set sc key v t setTime order;
           e = setTime + (if 0 < t then t else ttl sc)
       in map_option expiration (fmlookup (items sc') key) = Some e
        \<and> (e < now1 \<longrightarrow> fst (Get sc' key now1) = None
                    \<and> fmlookup (items (snd (Get sc' key now1))) key = None)
        \<and> (now2 \<le> e \<longrightarrow> fst (Get sc' key now2) = Some v)))
   \<and> (fmlookup (items c) k = Some item \<and> expiration item = 0 \<longrightarrow>
        fst (Get c k now3) = Some (itemValue item))
   \<and> (fmlookup (items c) k' = Some item' \<and> IsExpired item' now3 \<longrightarrow>
        fst (Get c k' now3) = None \<and> fmlookup (items (snd (Get c k' now3))) k' = None)"
proof -
  let ?e = "setTime + (if 0 < t then t else ttl sc)"
  let ?sc = "Set sc key v t setTime order"
  let ?item = "\<lparr>itemValue = v, expiration = ?e, accessed = setTime, accessCount = 1,
                itemSize = estimateSize v\<rparr>"
  have look: "fmlookup (items ?sc) key = Some ?item"
    using Set_lookup_same [of sc key v t setTime order] by (simp split: if_splits)
  have part1: "0 < setTime \<and> (0 < t \<or> 0 < ttl sc) \<longrightarrow>
      (map_option expiration (fmlookup (items ?sc) key) = Some ?e
        \<and> (?e < now1 \<longrightarrow> fst (Get ?sc key now1) = None
                    \<and> fmlookup (items (snd (Get ?sc key now1))) key = None)
        \<and> (now2 \<le> ?e \<longrightarrow> fst (Get ?sc key now2) = Some v))"
  proof
    assume pos: "0 < setTime \<and> (0 < t \<or> 0 < ttl sc)"
    then have nz: "?e \<noteq> 0" by auto
    have a: "map_option expiration (fmlookup (items ?sc) key) = Some ?e"
      using look by simp
    have b: "?e < now1 \<longrightarrow> fst (Get ?sc key now1) = None
                    \<and> fmlookup (items (snd (Get ?sc key now1))) key = None"
    proof
      assume "?e < now1"
      then have ex: "IsExpired ?item now1" using nz by (simp add: IsExpired_def)
      show "fst (Get ?sc key now1) = None
                    \<and> fmlookup (items (snd (Get ?sc key now1))) key = None"
        using Get_miss_iff [OF look, of now1] Get_expired_removed [OF look ex] ex by simp
    qed
    have c: "now2 \<le> ?e \<longrightarrow> fst (Get ?sc key now2) = Some v"
    proof
      assume "now2 \<le> ?e"
      then have "\<not> IsExpired ?item now2" by (simp add: IsExpired_def)
      then show "fst (Get ?sc key now2) = Some v"
        using Get_miss_iff [OF look, of now2] by simp
    qed
    from a b c show "map_option expiration (fmlookup (items ?sc) key) = Some ?e
        \<and> (?e < now1 \<longrightarrow> fst (Get ?sc key now1) = None
                    \<and> fmlookup (items (snd (Get ?sc key now1))) key = None)
        \<and> (now2 \<le> ?e \<longrightarrow> fst (Get ?sc key now2) = Some v)"
      by blast
  qed
  have part2: "fmlookup (items c) k = Some item \<and> expiration item = 0 \<longrightarrow>
        fst (Get c k now3) = Some (itemValue item)"
    by (auto simp: Get_miss_iff IsExpired_def)
  have part3: "fmlookup (items c) k' = Some item' \<and> IsExpired item' now3 \<longrightarrow>
        fst (Get c k' now3) = None \<and> fmlookup (items (snd (Get c k' now3))) k' = None"
    by (auto simp: Get_miss_iff Get_expired_removed)
  from part1 part2 part3 show ?thesis by (simp only: Let_def)
qed

lemma full_cache_eq:
  "full_cache =
     \<lparr>items = fmupd ''b'' \<lparr>itemValue = GInt 2, expiration = 102, accessed = 2, accessCount = 1, itemSize = 8\<rparr>
        (fmupd ''a'' \<lparr>itemValue = GInt 1, expiration = 101, accessed = 1, accessCount = 1, itemSize = 8\<rparr>
           fmempty),
      ttl = 100, hits = 0, misses = 0, evictions = 0, sizeLimit = 2\<rparr>"
  by (simp add: full_cache_def fresh_cache_def Set_def Let_def len_items_simps)

text \<open>
  Claim C3, as stated, fails: it says that a \<open>Set\<close> never evicts when it overwrites an
  existing key. In a cache of limit 2 that holds \<open>a\<close> and \<open>b\<close>, overwriting \<open>b\<close> evicts
  \<open>a\<close>, whatever the enumeration order: the entry count falls to 1 and the evictions
  counter grows by one.
\<close>

theorem overwrite_at_capacity_evicts:
  "NewSmartCache 100 2 = Some fresh_cache
   \<and> len_items (items full_cache) = 2
   \<and> fmlookup (items full_cache) ''a'' \<noteq> None
   \<and> fmlookup (items full_cache) ''b'' \<noteq> None
   \<and> fmlookup (items (Set full_cache ''b'' (GInt 3) 0 3 [''a'', ''b''])) ''a'' = None
   \<and> evictions (Set full_cache ''b'' (GInt 3) 0 3 [''a'', ''b'']) = evictions full_cache + 1
   \<and> len_items (items (Set full_cache ''b'' (GInt 3) 0 3 [''a'', ''b''])) = 1
   \<and> fmlookup (items (Set full_cache ''b'' (GInt 3) 0 3 [''b'', ''a''])) ''a'' = None"
  by (simp add: full_cache_eq NewSmartCache_def go_quot_def fresh_cache_def Set_def Let_def
      len_items_simps evictLRU_def fmdrop_fmupd)

lemma oldest_keys_nonempty:
  assumes "ks \<noteq> []"
  shows "oldest_keys m ks \<noteq> []"
proof -
  have fin: "finite (accessed_at m ` set ks)" and ne: "accessed_at m ` set ks \<noteq> {}"
    using assms by simp_all
  obtain k where k: "k \<in> set ks" "accessed_at m k = Min (accessed_at m ` set ks)"
    using Min_in [OF fin ne] by auto
  have "\<forall>k' \<in> set ks. accessed_at m k \<le> accessed_at m k'"
    using k(2) fin by simp
  then have "k \<in> set (oldest_keys m ks)" using k(1) by (simp add: oldest_keys_def)
  then show ?thesis by auto
qed

lemma oldest_keys_newer_prefix:
  assumes "\<forall>o1 \<in> set oks. accessed_at m k < accessed_at m o1"
  shows "oldest_keys m (oks @ k # ks) = oldest_keys m (k # ks)"
proof -
  let ?P = "\<lambda>x. \<forall>k' \<in> set (oks @ k # ks). accessed_at m x \<le> accessed_at m k'"
  let ?Q = "\<lambda>x. \<forall>k' \<in> set (k # ks). accessed_at m x \<le> accessed_at m k'"
  have "filter ?P oks = []"
  proof -
    have "\<not> ?P x" if "x \<in> set oks" for x
      using assms that by (auto intro!: bexI [of _ k])
    then show ?thesis by (simp add: filter_empty_conv)
  qed
  moreover have "filter ?P (k # ks) = filter ?Q (k # ks)"
  proof (rule filter_cong [OF refl])
    fix x assume x: "x \<in> set (k # ks)"
    show "?P x = ?Q x"
    proof
      assume "?P x" then show "?Q x" by simp
    next
      assume q: "?Q x"
      then have "accessed_at m x \<le> accessed_at m k" by simp
      then have "\<forall>o1 \<in> set oks. accessed_at m x \<le> accessed_at m o1"
        using assms by fastforce
      then show "?P x" using q by auto
    qed
  qed
  ultimately have "filter ?P (oks @ k # ks) = filter ?Q (k # ks)"
    by (simp only: filter_append append_Nil)
  then show ?thesis by (simp only: oldest_keys_def)
qed

lemma oldest_keys_skip_newer:
  assumes "o1 \<in> set oks" "accessed_at m o1 < accessed_at m k"
  shows "oldest_keys m (oks @ k # ks) = oldest_keys m (oks @ ks)"
proof -
  let ?P = "\<lambda>x. \<forall>k' \<in> set (oks @ k # ks). accessed_at m x \<le> accessed_at m k'"
  let ?R = "\<lambda>x. \<forall>k' \<in> set (oks @ ks). accessed_at m x \<le> accessed_at m k'"
  have notk: "\<not> ?P k" using assms by (auto intro!: bexI [of _ o1])
  have same: "?P x = ?R x" for x
  proof
    assume "?P x" then show "?R x" by simp
  next
    assume r: "?R x"
    then have "accessed_at m x \<le> accessed_at m o1" using assms(1) by simp
    then have "accessed_at m x \<le> accessed_at m k" using assms(2) by simp
    then show "?P x" using r by auto
  qed
  have "filter ?P (oks @ k # ks) = filter ?P oks @ filter ?P ks"
    using notk by (simp only: filter_append filter.simps if_False)
  also have "\<dots> = filter ?P (oks @ ks)" by (simp only: filter_append)
  also have "\<dots> = filter ?R (oks @ ks)" by (simp only: same)
  finally show ?thesis by (simp only: oldest_keys_def)
qed

lemma oldest_keys_all_equal:
  assumes "\<forall>k \<in> set oks. accessed_at m k = ot"
  shows "oldest_keys m oks = oks"
  using assms by (simp add: oldest_keys_def)

lemma oldest_scan_running:
  assumes "set ks \<subseteq> fmdom' m" "oks \<noteq> []" "\<forall>k \<in> set oks. accessed_at m k = ot"
  shows "fst (oldest_scan m ks (oks, ot)) = oldest_keys m (oks @ ks)"
  using assms
proof (induction ks arbitrary: oks ot)
  case Nil
  then show ?case using oldest_keys_all_equal [of oks m ot] by simp
next
  case (Cons k ks)
  from Cons.prems(1) obtain item where item: "fmlookup m k = Some item"
    by (auto simp: fmlookup_dom'_iff)
  then have acc: "accessed_at m k = accessed item" by (simp add: accessed_at_def)
  from Cons.prems(1) have sub: "set ks \<subseteq> fmdom' m" by simp
  obtain o1 where o1: "o1 \<in> set oks" using Cons.prems(2) by (cases oks) auto
  consider (less) "accessed item < ot" | (eq) "accessed item = ot" | (greater) "ot < accessed item"
    by linarith
  then show ?case
  proof cases
    case less
    have "fst (oldest_scan m (k # ks) (oks, ot)) = fst (oldest_scan m ks ([k], accessed item))"
      using item less by simp
    also have "\<dots> = oldest_keys m ([k] @ ks)"
      using sub acc by (intro Cons.IH) simp_all
    also have "\<dots> = oldest_keys m (oks @ k # ks)"
      using oldest_keys_newer_prefix [of oks m k ks] Cons.prems(3) less acc by simp
    finally show ?thesis .
  next
    case eq
    have "fst (oldest_scan m (k # ks) (oks, ot)) = fst (oldest_scan m ks (oks @ [k], ot))"
      using item eq Cons.prems(2) by simp
    also have "\<dots> = oldest_keys m ((oks @ [k]) @ ks)"
      using sub acc eq Cons.prems by (intro Cons.IH) auto
    finally show ?thesis by simp
  next
    case greater
    have "fst (oldest_scan m (k # ks) (oks, ot)) = fst (oldest_scan m ks (oks, ot))"
      using item greater Cons.prems(2) by simp
    also have "\<dots> = oldest_keys m (oks @ ks)"
      using sub Cons.prems by (intro Cons.IH) auto
    also have "\<dots> = oldest_keys m (oks @ k # ks)"
      using oldest_keys_skip_newer [of o1 oks m k ks] Cons.prems(3) greater acc o1 by simp
    finally show ?thesis .
  qed
qed

lemma len_items_enumerates:
  "enumerates order m \<Longrightarrow> len_items m = length order"
  by (simp add: enumerates_def len_items_def fcard.rep_eq fmdom'_alt_def [symmetric]
      distinct_card [symmetric])

lemma oldest_scan_start:
  assumes "set ks \<subseteq> fmdom' m" "ks \<noteq> []"
  shows "fst (oldest_scan m ks ([], now)) = oldest_keys m ks"
proof -
  obtain k ks' where ks: "ks = k # ks'" using assms(2) by (cases ks) auto
  obtain item where item: "fmlookup m k = Some item"
    using assms(1) ks by (auto simp: fmlookup_dom'_iff)
  have "fst (oldest_scan m ks ([], now)) = fst (oldest_scan m ks' ([k], accessed item))"
    using ks item by simp
  also have "\<dots> = oldest_keys m ([k] @ ks')"
    using assms(1) ks item by (intro oldest_scan_running) (simp_all add: accessed_at_def)
  finally show ?thesis using ks by simp
qed

lemma evictLRU_one:
  assumes "enumerates order (items sc)" "order \<noteq> []"
  shows "\<exists>victim. lru_victim (items sc) order = Some victim
     \<and> victim \<in> fmdom' (items sc)
     \<and> (\<forall>k \<in> fmdom' (items sc). accessed_at (items sc) victim \<le> accessed_at (items sc) k)
     \<and> evictLRU sc 1 now order =
         sc\<lparr>items := fmdrop victim (items sc), evictions := evictions sc + 1\<rparr>"
proof -
  from assms(1) have sub: "set order = fmdom' (items sc)" by (simp add: enumerates_def)
  obtain victim rest where ok: "oldest_keys (items sc) order = victim # rest"
    using oldest_keys_nonempty [OF assms(2), of "items sc"] by (cases "oldest_keys (items sc) order") auto
  then have "victim \<in> set (oldest_keys (items sc) order)" by simp
  then have v: "victim \<in> set order"
      "\<forall>k \<in> set order. accessed_at (items sc) victim \<le> accessed_at (items sc) k"
    by (simp_all add: oldest_keys_def)
  have scan: "fst (oldest_scan (items sc) order ([], now)) = victim # rest"
    using oldest_scan_start [of order "items sc" now] sub assms(2) ok by simp
  have "evictLRU sc 1 now order =
      sc\<lparr>items := fmdrop victim (items sc), evictions := evictions sc + 1\<rparr>"
    by (cases rest) (simp_all add: evictLRU_def scan)
  then show ?thesis using ok v sub by (auto simp: lru_victim_def)
qed

text \<open>
  Claim C3, amended. For every \<open>Set(key, value, ttl)\<close> at time \<open>now\<close>: the stored entry
  expires at \<open>now + ttl\<close> when \<open>ttl > 0\<close> and at \<open>now + defaultTTL\<close> otherwise; when the
  cache is below its size limit (or has none) nothing is evicted; when it is at its size
  limit, whether or not the key is already present, exactly one entry is evicted before
  the store: the first key of the enumeration among those with the least access time.
\<close>

theorem Set_eviction_policy:
  "enumerates order (items sc) \<longrightarrow>
     (let sc' = Set sc key v t now order;
          item = \<lparr>itemValue = v, expiration = now + (if 0 < t then t else ttl sc), accessed = now,
                  accessCount = 1, itemSize = estimateSize v\<rparr>
      in fmlookup (items sc') key = Some item
       \<and> (\<not> (0 < sizeLimit sc \<and> sizeLimit sc \<le> int (len_items (items sc))) \<longrightarrow>
            items sc' = fmupd key item (items sc) \<and> evictions sc' = evictions sc)
       \<and> (0 < sizeLimit sc \<and> sizeLimit sc \<le> int (len_items (items sc)) \<longrightarrow>
            (\<exists>victim. lru_victim (items sc) order = Some victim
               \<and> victim \<in> fmdom' (items sc)
               \<and> (\<forall>k \<in> fmdom' (items sc). accessed_at (items sc) victim \<le> accessed_at (items sc) k)
               \<and> items sc' = fmupd key item (fmdrop victim (items sc))
               \<and> evictions sc' = evictions sc + 1)))"
proof
  assume en: "enumerates order (items sc)"
  let ?sc = "Set sc key v t now order"
  let ?item = "\<lparr>itemValue = v, expiration = now + (if 0 < t then t else ttl sc), accessed = now,
                  accessCount = 1, itemSize = estimateSize v\<rparr>"
  have a: "fmlookup (items ?sc) key = Some ?item"
    using Set_lookup_same [of sc key v t now order] by (simp split: if_splits)
  have b: "\<not> (0 < sizeLimit sc \<and> sizeLimit sc \<le> int (len_items (items sc))) \<longrightarrow>
            items ?sc = fmupd key ?item (items sc) \<and> evictions ?sc = evictions sc"
    by (auto simp: Set_def Let_def)
  have c: "0 < sizeLimit sc \<and> sizeLimit sc \<le> int (len_items (items sc)) \<longrightarrow>
            (\<exists>victim. lru_victim (items sc) order = Some victim
               \<and> victim \<in> fmdom' (items sc)
               \<and> (\<forall>k \<in> fmdom' (items sc). accessed_at (items sc) victim \<le> accessed_at (items sc) k)
               \<and> items ?sc = fmupd key ?item (fmdrop victim (items sc))
               \<and> evictions ?sc = evictions sc + 1)"
  proof
    assume full: "0 < sizeLimit sc \<and> sizeLimit sc \<le> int (len_items (items sc))"
    then have "0 < int (length order)" using len_items_enumerates [OF en] by linarith
    then have ne: "order \<noteq> []" by auto
    obtain victim where v: "lru_victim (items sc) order = Some victim"
        "victim \<in> fmdom' (items sc)"
        "\<forall>k \<in> fmdom' (items sc). accessed_at (items sc) victim \<le> accessed_at (items sc) k"
        "evictLRU sc 1 now order =
           sc\<lparr>items := fmdrop victim (items sc), evictions := evictions sc + 1\<rparr>"
      using evictLRU_one [OF en ne, of now] by blast
    have "items ?sc = fmupd key ?item (fmdrop victim (items sc)) \<and> evictions ?sc = evictions sc + 1"
      using full v(4) by (simp add: Set_def Let_def)
    then show "\<exists>victim. lru_victim (items sc) order = Some victim
               \<and> victim \<in> fmdom' (items sc)
               \<and> (\<forall>k \<in> fmdom' (items sc). accessed_at (items sc) victim \<le> accessed_at (items sc) k)
               \<and> items ?sc = fmupd key ?item (fmdrop victim (items sc))
               \<and> evictions ?sc = evictions sc + 1"
      using v(1,2,3) by blast
  qed
  from a b c show "let sc' = Set sc key v t now order;
          item = \<lparr>itemValue = v, expiration = now + (if 0 < t then t else ttl sc), accessed = now,
                  accessCount = 1, itemSize = estimateSize v\<rparr>
      in fmlookup (items sc') key = Some item
       \<and> (\<not> (0 < sizeLimit sc \<and> sizeLimit sc \<le> int (len_items (items sc))) \<longrightarrow>
            items sc' = fmupd key item (items sc) \<and> evictions sc' = evictions sc)
       \<and> (0 < sizeLimit sc \<and> sizeLimit sc \<le> int (len_items (items sc)) \<longrightarrow>
            (\<exists>victim. lru_victim (items sc) order = Some victim
               \<and> victim \<in> fmdom' (items sc)
               \<and> (\<forall>k \<in> fmdom' (items sc). accessed_at (items sc) victim \<le> accessed_at (items sc) k)
               \<and> items sc' = fmupd key item (fmdrop victim (items sc))
               \<and> evictions sc' = evictions sc + 1))"
    by (simp only: Let_def)
qed

text \<open>The full cache overwritten at \<open>b\<close>, and the new cache set at \<open>a\<close>.\<close>

theorem Set_eviction_policy_witness:
  "enumerates [''a'', ''b''] (items full_cache)
   \<and> 0 < sizeLimit full_cache \<and> sizeLimit full_cache \<le> int (len_items (items full_cache))
   \<and> fmlookup (items full_cache) ''b'' \<noteq> None
   \<and> lru_victim (items full_cache) [''a'', ''b''] = Some ''a''
   \<and> items (Set full_cache ''b'' (GInt 3) 0 3 [''a'', ''b'']) =
        fmupd ''b'' \<lparr>itemValue = GInt 3, expiration = 103, accessed = 3, accessCount = 1, itemSize = 8\<rparr>
          (fmdrop ''a'' (items full_cache))
   \<and> evictions (Set full_cache ''b'' (GInt 3) 0 3 [''a'', ''b'']) = evictions full_cache + 1
   \<and> enumerates [] (items fresh_cache)
   \<and> \<not> (0 < sizeLimit fresh_cache \<and> sizeLimit fresh_cache \<le> int (len_items (items fresh_cache)))
   \<and> items (Set fresh_cache ''a'' (GInt 1) 5 1 []) =
        fmupd ''a'' \<lparr>itemValue = GInt 1, expiration = 6, accessed = 1, accessCount = 1, itemSize = 8\<rparr>
          (items fresh_cache)
   \<and> evictions (Set fresh_cache ''a'' (GInt 1) 5 1 []) = evictions fresh_cache"
proof -
  have victim: "lru_victim (items full_cache) [''a'', ''b''] = Some ''a''"
    by (simp add: lru_victim_def oldest_keys_def accessed_at_def full_cache_eq)
  have en: "enumerates [''a'', ''b''] (items full_cache)" "enumerates [] (items fresh_cache)"
    by (auto simp: enumerates_def full_cache_eq fresh_cache_def)
  have cap: "0 < sizeLimit full_cache \<and> sizeLimit full_cache \<le> int (len_items (items full_cache))"
      "\<not> (0 < sizeLimit fresh_cache \<and> sizeLimit fresh_cache \<le> int (len_items (items fresh_cache)))"
    by (simp_all add: full_cache_eq fresh_cache_def len_items_simps)
  have present: "fmlookup (items full_cache) ''b'' \<noteq> None"
    by (simp add: full_cache_eq)
  have ttls: "ttl full_cache = 100" "ttl fresh_cache = 100"
    by (simp_all add: full_cache_eq fresh_cache_def)
  show ?thesis
    using Set_eviction_policy [of "[''a'', ''b'']" full_cache "''b''" "GInt 3" 0 3]
      Set_eviction_policy [of "[]" fresh_cache "''a''" "GInt 1" 5 1]
      victim en cap present
    by (simp add: Let_def ttls)
qed

text \<open>An entry set at time 5 for 10, read at 16 and at 15; and the two entries of the stale cache.\<close>

theorem get_ttl_expiry_witness:
  "fst (Get (Set fresh_cache ''a'' (GInt 1) 10 5 []) ''a'' 16) = None
   \<and> fmlookup (items (snd (Get (Set fresh_cache ''a'' (GInt 1) 10 5 []) ''a'' 16))) ''a'' = None
   \<and> fst (Get (Set fresh_cache ''a'' (GInt 1) 10 5 []) ''a'' 15) = Some (GInt 1)
   \<and> fmlookup (items stale_cache) ''p'' \<noteq> None
   \<and> fst (Get stale_cache ''p'' 9) = Some (GInt 1)
   \<and> fst (Get stale_cache ''q'' 9) = None
   \<and> fmlookup (items (snd (Get stale_cache ''q'' 9))) ''q'' = None"
  using get_ttl_expiry [where setTime = 5 and t = 10 and sc = fresh_cache and key = "''a''"
      and v = "GInt 1" and order = "[]" and ?now1.0 = 16 and ?now2.0 = 15 and c = stale_cache
      and k = "''p''"
      and item = "\<lparr>itemValue = GInt 1, expiration = 0, accessed = 1, accessCount = 1, itemSize = 8\<rparr>"
      and ?now3.0 = 9 and k' = "''q''"
      and item' = "\<lparr>itemValue = GInt 2, expiration = 7, accessed = 2, accessCount = 1, itemSize = 8\<rparr>"]
  by (simp add: Let_def stale_cache_def IsExpired_def)

text \<open>The stale cache at time 9.\<close>

theorem evictions_counter_witness:
  "evictions (Delete stale_cache ''q'') = evictions stale_cache + 1
   \<and> Delete stale_cache ''zz'' = stale_cache
   \<and> evictions (snd (Get stale_cache ''q'' 9)) = evictions stale_cache + 1
   \<and> enumerates [''p'', ''q''] (items stale_cache)
   \<and> evictions (cleanupExpired stale_cache 9 [''p'', ''q'']) = evictions stale_cache + 1
   \<and> fmlookup (items (cleanupExpired stale_cache 9 [''p'', ''q''])) ''q'' = None
   \<and> fmlookup (items (cleanupExpired stale_cache 9 [''p'', ''q''])) ''p'' \<noteq> None
   \<and> evictions (Clear stale_cache) = evictions stale_cache"
  using evictions_counter [where sc = stale_cache and key = "''q''"
      and item = "\<lparr>itemValue = GInt 2, expiration = 7, accessed = 2, accessCount = 1, itemSize = 8\<rparr>"
      and key' = "''zz''" and now = 9 and order = "[''p'', ''q'']"]
  by (auto simp: stale_cache_def IsExpired_def enumerates_def expired_in_def)

text \<open>
  Claim C6. Every \<open>Get\<close> adds one to exactly one of the hit and miss counters, a hit
  exactly when it returns a value; an expired entry that is still present counts as a
  miss. For a cache made by \<open>NewSmartCache\<close> and any history with fewer than \<open>2^63\<close>
  calls of \<open>Get\<close>, the counters are non-negative, add up to the number of \<open>Get\<close> calls,
  and \<open>GetStats\<close> reports the hit rate \<open>hits / (hits + misses)\<close>, or 0 when there was no
  \<open>Get\<close>.
\<close>

theorem get_counts_and_hit_rate:
  "((fst (Get sc key now) \<noteq> None \<and> hits (snd (Get sc key now)) = hits sc + 1
       \<and> misses (snd (Get sc key now)) = misses sc)
    \<or> (fst (Get sc key now) = None \<and> hits (snd (Get sc key now)) = hits sc
       \<and> misses (snd (Get sc key now)) = misses sc + 1))
   \<and> (fmlookup (items sc) key = Some item \<and> IsExpired item now \<longrightarrow>
        hits (snd (Get sc key now)) = hits sc \<and> misses (snd (Get sc key now)) = misses sc + 1)
   \<and> (NewSmartCache t0 limit = Some sc0 \<and> count_gets ops < 2 ^ 63 \<longrightarrow>
        0 \<le> sint (Hits (GetStats (run_ops sc0 ops)))
        \<and> 0 \<le> sint (Misses (GetStats (run_ops sc0 ops)))
        \<and> sint (Hits (GetStats (run_ops sc0 ops))) + sint (Misses (GetStats (run_ops sc0 ops)))
            = int (count_gets ops)
        \<and> HitRate (GetStats (run_ops sc0 ops)) =
            (if count_gets ops = 0 then 0
             else real_of_int (sint (Hits (GetStats (run_ops sc0 ops))))
                / real_of_int (sint (Hits (GetStats (run_ops sc0 ops)))
                             + sint (Misses (GetStats (run_ops sc0 ops))))))"
proof -
  have expired: "fmlookup (items sc) key = Some item \<and> IsExpired item now \<longrightarrow>
        hits (snd (Get sc key now)) = hits sc \<and> misses (snd (Get sc key now)) = misses sc + 1"
    by (simp add: Get_def Let_def deleteExpired_def)
  show ?thesis
    using Get_counters [of sc key now] expired HitRate_fresh [of t0 limit sc0 ops]
    by blast
qed

text \<open>A miss on the expired entry, and the hit rate 1/3 after one hit and two misses.\<close>

theorem get_counts_and_hit_rate_witness:
  "fst (Get stale_cache ''q'' 9) = None
   \<and> hits (snd (Get stale_cache ''q'' 9)) = hits stale_cache
   \<and> misses (snd (Get stale_cache ''q'' 9)) = misses stale_cache + 1
   \<and> NewSmartCache 100 2 = Some fresh_cache
   \<and> count_gets example_ops = 3
   \<and> Hits (GetStats (run_ops fresh_cache example_ops)) = 1
   \<and> Misses (GetStats (run_ops fresh_cache example_ops)) = 2
   \<and> HitRate (GetStats (run_ops fresh_cache example_ops)) = 1 / 3"
proof -
  let ?q = "\<lparr>itemValue = GInt 2, expiration = 7, accessed = 2, accessCount = 1, itemSize = 8\<rparr>
              :: nat SmartCacheItem"
  note T = get_counts_and_hit_rate [where sc = stale_cache and key = "''q''" and now = 9
      and item = ?q and ?t0.0 = 100 and limit = 2 and ?sc0.0 = fresh_cache and ops = example_ops]
  have look: "fmlookup (items stale_cache) ''q'' = Some ?q \<and> IsExpired ?q 9"
    by (simp add: stale_cache_def IsExpired_def)
  have miss: "fst (Get stale_cache ''q'' 9) = None"
    by (simp add: stale_cache_def Get_def IsExpired_def Let_def)
  have new: "NewSmartCache 100 2 = Some fresh_cache"
    by (simp add: NewSmartCache_def go_quot_def fresh_cache_def)
  have cnt: "count_gets example_ops = 3"
    by (simp add: count_gets_def example_ops_def)
  have run: "hits (run_ops fresh_cache example_ops) = 1" "misses (run_ops fresh_cache example_ops) = 2"
    by (simp_all add: example_ops_def fresh_cache_def Set_def Get_def Let_def IsExpired_def
        deleteExpired_def len_items_simps)
  have stats: "Hits (GetStats (run_ops fresh_cache example_ops)) = 1"
      "Misses (GetStats (run_ops fresh_cache example_ops)) = 2"
    using run by (simp_all add: GetStats_def Let_def)
  from T look have counters: "hits (snd (Get stale_cache ''q'' 9)) = hits stale_cache
      \<and> misses (snd (Get stale_cache ''q'' 9)) = misses stale_cache + 1"
    by blast
  have small: "count_gets example_ops < 2 ^ 63"
    using cnt by simp
  from T new small have "HitRate (GetStats (run_ops fresh_cache example_ops)) =
      (if count_gets example_ops = 0 then 0
       else real_of_int (sint (Hits (GetStats (run_ops fresh_cache example_ops))))
        / real_of_int (sint (Hits (GetStats (run_ops fresh_cache example_ops)))
                     + sint (Misses (GetStats (run_ops fresh_cache example_ops)))))"
    by blast
  then have rate: "HitRate (GetStats (run_ops fresh_cache example_ops)) = 1 / 3"
    unfolding stats cnt by simp
  from miss counters new cnt stats rate show ?thesis by blast
qed

section \<open>Properties of the collector and the fetcher\<close>

lemma length_number_tasks: "length (number_tasks k tasks) = length tasks"
  by (induction tasks arbitrary: k) simp_all

lemma nth_number_tasks:
  "i < length tasks \<Longrightarrow> number_tasks k tasks ! i = (tasks ! i)\<lparr>TaskID := k + i\<rparr>"
proof (induction tasks arbitrary: k i)
  case Nil
  then show ?case by simp
next
  case (Cons t ts)
  then show ?case by (cases i) simp_all
qed

lemma delivered_arrivals:
  "\<forall>(i, el) \<in> set arr. i < length tasks \<Longrightarrow>
   delivered tasks (arrivals arr @ ss) =
     map (\<lambda>(i, el). GotResult (worker_result (tasks ! i) el)) arr @ delivered tasks ss"
  by (induction arr) (auto simp: arrivals_def)

lemma collect_results:
  "\<forall>(i, el) \<in> set arr. i < length results \<and> ID (f i el) = i \<Longrightarrow>
   received + length arr = tot \<Longrightarrow>
   collect tot tmo results received (map (\<lambda>(i, el). GotResult (f i el)) arr @ evs) =
     Done (Some (foldl (\<lambda>res (i, el). res[i := f i el]) results arr), None)"
proof (induction arr arbitrary: results received)
  case Nil
  then show ?case by (cases evs) simp_all
next
  case (Cons a arr)
  obtain i el where a: "a = (i, el)" by (cases a)
  have "collect tot tmo results received (map (\<lambda>(i, el). GotResult (f i el)) (a # arr) @ evs)
      = collect tot tmo (results[i := f i el]) (received + 1)
          (map (\<lambda>(i, el). GotResult (f i el)) arr @ evs)"
    using Cons.prems a by simp
  also have "\<dots> = Done (Some (foldl (\<lambda>res (i, el). res[i := f i el]) (results[i := f i el]) arr), None)"
    using Cons.prems by (intro Cons.IH) auto
  finally show ?case using a by simp
qed

lemma length_foldl_place:
  "length (foldl (\<lambda>res (i, el). res[i := f i el]) results arr) = length results"
  by (induction arr arbitrary: results) auto

lemma nth_foldl_place:
  "distinct (map fst arr) \<Longrightarrow> j < length results \<Longrightarrow>
   foldl (\<lambda>res (i, el). res[i := f i el]) results arr ! j =
     (case map_of arr j of None \<Rightarrow> results ! j | Some el \<Rightarrow> f j el)"
proof (induction arr arbitrary: results)
  case Nil
  then show ?case by simp
next
  case (Cons a arr)
  obtain i el where a: "a = (i, el)" by (cases a)
  from Cons.prems a have d: "distinct (map fst arr)" and ni: "i \<notin> fst ` set arr" by auto
  have none: "map_of arr i = None" using ni by (simp add: map_of_eq_None_iff)
  have "foldl (\<lambda>res (i, el). res[i := f i el]) results (a # arr) ! j
      = foldl (\<lambda>res (i, el). res[i := f i el]) (results[i := f i el]) arr ! j"
    using a by simp
  also have "\<dots> = (case map_of arr j of None \<Rightarrow> results[i := f i el] ! j | Some el \<Rightarrow> f j el)"
    using Cons.prems by (intro Cons.IH [OF d]) simp
  also have "\<dots> = (case map_of (a # arr) j of None \<Rightarrow> results ! j | Some el \<Rightarrow> f j el)"
    using a none Cons.prems(2) by (cases "i = j") (auto split: option.splits)
  finally show ?case .
qed

lemma perm_upt_facts:
  assumes "mset (map fst arr) = mset [0..<n]"
  shows "distinct (map fst arr)" and "fst ` set arr = {0..<n}" and "length arr = n"
proof -
  show "distinct (map fst arr)"
    using assms by (metis distinct_upt mset_eq_imp_distinct_iff)
  have "set (map fst arr) = set [0..<n]" using assms by (rule mset_eq_setD)
  then show "fst ` set arr = {0..<n}" by simp
  have "length (map fst arr) = length [0..<n]" using assms by (rule mset_eq_length)
  then show "length arr = n" by simp
qed

lemma ExecuteWithTimeout_all:
  assumes perm: "mset (map fst arr) = mset [0..<length tasks]" and ne: "tasks \<noteq> []"
  shows "ExecuteWithTimeout tasks tmo (arrivals arr @ ss) =
           Done (Some (results_by_id tasks arr), None)"
proof -
  let ?n = "length tasks"
  let ?nt = "number_tasks 0 tasks"
  let ?f = "\<lambda>i el. worker_result (?nt ! i) el"
  let ?init = "replicate ?n (zero_Result :: 'a Result)"
  note facts = perm_upt_facts [OF perm]
  have inrange: "\<forall>(i, el) \<in> set arr. i < ?n"
    using facts(2) by force
  have del: "delivered ?nt (arrivals arr @ ss) =
      map (\<lambda>(i, el). GotResult (?f i el)) arr @ delivered ?nt ss"
    using inrange by (intro delivered_arrivals) (simp add: length_number_tasks)
  have ids: "\<forall>(i, el) \<in> set arr. i < length ?init \<and> ID (?f i el) = i"
    using inrange by (auto simp: worker_result_def nth_number_tasks)
  have col: "collect ?n tmo ?init 0 (map (\<lambda>(i, el). GotResult (?f i el)) arr @ delivered ?nt ss)
      = Done (Some (foldl (\<lambda>res (i, el). res[i := ?f i el]) ?init arr), None)"
    using ids facts(3) by (intro collect_results) simp_all
  have eq: "foldl (\<lambda>res (i, el). res[i := ?f i el]) ?init arr = results_by_id tasks arr"
  proof (rule nth_equalityI)
    show "length (foldl (\<lambda>res (i, el). res[i := ?f i el]) ?init arr) = length (results_by_id tasks arr)"
      by (simp add: length_foldl_place results_by_id_def)
  next
    fix j assume "j < length (foldl (\<lambda>res (i, el). res[i := ?f i el]) ?init arr)"
    then have j: "j < ?n" by (simp add: length_foldl_place)
    then have "j \<in> fst ` set arr" using facts(2) by simp
    then obtain el where el: "map_of arr j = Some el"
      by (metis map_of_eq_None_iff not_Some_eq)
    have "foldl (\<lambda>res (i, el). res[i := ?f i el]) ?init arr ! j =
        (case map_of arr j of None \<Rightarrow> ?init ! j | Some el \<Rightarrow> ?f j el)"
      using facts(1) j by (intro nth_foldl_place) simp_all
    then show "foldl (\<lambda>res (i, el). res[i := ?f i el]) ?init arr ! j = results_by_id tasks arr ! j"
      using el j by (simp add: results_by_id_def nth_number_tasks)
  qed
  show ?thesis
    using ne del col eq by (simp add: ExecuteWithTimeout_def)
qed

lemma store_result_other:
  "ID r \<noteq> 0 \<Longrightarrow> SystemStatus (store_result r d) = SystemStatus d"
  "ID r \<noteq> 1 \<Longrightarrow> DeviceList (store_result r d) = DeviceList d"
  "ID r \<noteq> 2 \<Longrightarrow> WanInfo (store_result r d) = WanInfo d"
  "ID r \<noteq> 3 \<Longrightarrow> WifiDetails (store_result r d) = WifiDetails d"
  by (simp_all add: store_result_def split: dynval.splits)

lemma store_result_same:
  "ID r = 0 \<Longrightarrow> SystemStatus (store_result r d) =
     (case Value r of DSystemStatus p \<Rightarrow> p | _ \<Rightarrow> SystemStatus d)"
  "ID r = 1 \<Longrightarrow> DeviceList (store_result r d) =
     (case Value r of DDeviceList p \<Rightarrow> p | _ \<Rightarrow> DeviceList d)"
  "ID r = 2 \<Longrightarrow> WanInfo (store_result r d) =
     (case Value r of DWanInfo p \<Rightarrow> p | _ \<Rightarrow> WanInfo d)"
  "ID r = 3 \<Longrightarrow> WifiDetails (store_result r d) =
     (case Value r of DWifiDetailAll p \<Rightarrow> p | _ \<Rightarrow> WifiDetails d)"
  by (simp_all add: store_result_def split: dynval.splits)

lemma store_result_more: "RouterData.more (store_result r d) = RouterData.more d"
  by (simp add: store_result_def split: dynval.splits)

lemma process_results_error:
  "snd (process_results rs d fe) =
     (case fe of Some e \<Rightarrow> Some e | None \<Rightarrow> first_error (map Error rs))"
  by (induction rs arbitrary: d fe) (auto simp: first_error_def split: option.splits)

lemma process_results_four:
  assumes ids: "ID r0 = 0" "ID r1 = 1" "ID r2 = 2" "ID r3 = 3"
  shows "fst (process_results [r0, r1, r2, r3] d fe) =
    d\<lparr>SystemStatus := field_of r0 (SystemStatus d),
      DeviceList := field_of r1 (DeviceList d),
      WanInfo := field_of r2 (WanInfo d),
      WifiDetails := field_of r3 (WifiDetails d)\<rparr>"
proof -
  define step where "step r x = (case Error r of Some e \<Rightarrow> x | None \<Rightarrow> store_result r x)"
    for r :: "'a Result" and x :: "'a RouterData"
  have unfold: "fst (process_results [r0, r1, r2, r3] d fe) = step r3 (step r2 (step r1 (step r0 d)))"
    by (simp add: step_def split: option.splits)
  have s0: "step r0 d = d\<lparr>SystemStatus := field_of r0 (SystemStatus d)\<rparr>"
    using ids(1) by (simp add: step_def field_of_def routed_def store_result_def split: option.splits dynval.splits)
  have s1: "step r1 x = x\<lparr>DeviceList := field_of r1 (DeviceList x)\<rparr>" for x
    using ids(2) by (simp add: step_def field_of_def routed_def store_result_def split: option.splits dynval.splits)
  have s2: "step r2 x = x\<lparr>WanInfo := field_of r2 (WanInfo x)\<rparr>" for x
    using ids(3) by (simp add: step_def field_of_def routed_def store_result_def split: option.splits dynval.splits)
  have s3: "step r3 x = x\<lparr>WifiDetails := field_of r3 (WifiDetails x)\<rparr>" for x
    using ids(4) by (simp add: step_def field_of_def routed_def store_result_def split: option.splits dynval.splits)
  show ?thesis
    by (simp only: unfold s0 s1 s2 s3) simp
qed

lemma failed_rounds_simps:
  "failed_rounds d a a = []"
  "a \<le> b \<Longrightarrow> failed_rounds d a (Suc b) = failed_rounds d a b @ [Attempt b, Slept d]"
  by (simp_all add: failed_rounds_def)

lemma count_failed_rounds:
  "length (filter is_attempt (failed_rounds d a b)) = b - a"
  by (induction b) (auto simp: failed_rounds_def Suc_diff_le)

declare fetchWithRetry_loop.simps [simp del]

lemma loop_attempts_bound:
  "length (filter is_attempt (snd (fetchWithRetry_loop df ctx f i le tr)))
     \<le> length (filter is_attempt tr) + nat (maxRetries df - int i)"
proof (induction df ctx f i le tr rule: fetchWithRetry_loop.induct)
  case (1 df ctx f i le tr)
  show ?case
  proof (cases "int i < maxRetries df")
    case False
    then show ?thesis by (simp add: fetchWithRetry_loop.simps [of df ctx f i le tr])
  next
    case lt: True
    show ?thesis
    proof (cases "doneBefore ctx i")
      case True
      then show ?thesis using lt by (simp add: fetchWithRetry_loop.simps [of df ctx f i le tr])
    next
      case nd: False
      obtain v e where fi: "f i = (v, e)" by (cases "f i")
      show ?thesis
      proof (cases e)
        case None
        then show ?thesis using lt nd fi
          by (simp add: fetchWithRetry_loop.simps [of df ctx f i le tr])
      next
        case (Some err)
        show ?thesis
        proof (cases "int i = maxRetries df - 1")
          case True
          have "fetchWithRetry_loop df ctx f i le tr =
                fetchWithRetry_loop df ctx f (i + 1) (Some err) (tr @ [Attempt i])"
            using lt nd fi Some True
            by (simp add: fetchWithRetry_loop.simps [of df ctx f i le tr])
          moreover have "length (filter is_attempt (snd (fetchWithRetry_loop df ctx f (i + 1) (Some err)
                  (tr @ [Attempt i]))))
              \<le> length (filter is_attempt (tr @ [Attempt i])) + nat (maxRetries df - int (i + 1))"
            using lt nd fi Some True by (intro "1.IH"(1)) auto
          ultimately show ?thesis using lt by simp
        next
          case nl: False
          show ?thesis
          proof (cases "doneInSleep ctx i")
            case True
            then show ?thesis using lt nd fi Some nl
              by (simp add: fetchWithRetry_loop.simps [of df ctx f i le tr])
          next
            case False
            have "fetchWithRetry_loop df ctx f i le tr =
                  fetchWithRetry_loop df ctx f (i + 1) (Some err)
                    (tr @ [Attempt i, Slept (retryDelay df)])"
              using lt nd fi Some nl False
              by (simp add: fetchWithRetry_loop.simps [of df ctx f i le tr])
            moreover have "length (filter is_attempt (snd (fetchWithRetry_loop df ctx f (i + 1) (Some err)
                    (tr @ [Attempt i, Slept (retryDelay df)]))))
                \<le> length (filter is_attempt (tr @ [Attempt i, Slept (retryDelay df)]))
                  + nat (maxRetries df - int (i + 1))"
              using lt nd fi Some nl False by (intro "1.IH"(2)) auto
            ultimately show ?thesis using lt by simp
          qed
        qed
      qed
    qed
  qed
qed

text \<open>Attempts \<open>a, ..., b - 1\<close> fail, none is the last one, and the context stays quiet.\<close>

lemma loop_failed_rounds:
  assumes "a \<le> b"
    and "\<forall>i. a \<le> i \<and> i < b \<longrightarrow>
           snd (f i) \<noteq> None \<and> \<not> doneBefore ctx i \<and> \<not> doneInSleep ctx i \<and> int i < maxRetries df - 1"
  shows "fetchWithRetry_loop df ctx f a le tr =
         fetchWithRetry_loop df ctx f b (if a < b then snd (f (b - 1)) else le)
           (tr @ failed_rounds (retryDelay df) a b)"
  using assms
proof (induction b)
  case 0
  then show ?case by (simp add: failed_rounds_simps)
next
  case (Suc b)
  show ?case
  proof (cases "a = Suc b")
    case True
    then show ?thesis by (simp add: failed_rounds_simps)
  next
    case False
    then have ab: "a \<le> b" using Suc.prems(1) by simp
    have ih: "fetchWithRetry_loop df ctx f a le tr =
         fetchWithRetry_loop df ctx f b (if a < b then snd (f (b - 1)) else le)
           (tr @ failed_rounds (retryDelay df) a b)"
      using ab Suc.prems(2) by (intro Suc.IH) auto
    from Suc.prems(2) ab have b: "snd (f b) \<noteq> None" "\<not> doneBefore ctx b" "\<not> doneInSleep ctx b"
        "int b < maxRetries df - 1"
      by auto
    obtain v err where fb: "f b = (v, Some err)" using b(1) by (cases "f b") auto
    have "fetchWithRetry_loop df ctx f b (if a < b then snd (f (b - 1)) else le)
           (tr @ failed_rounds (retryDelay df) a b)
        = fetchWithRetry_loop df ctx f (Suc b) (Some err)
           ((tr @ failed_rounds (retryDelay df) a b) @ [Attempt b, Slept (retryDelay df)])"
      using b fb
      by (subst fetchWithRetry_loop.simps) simp
    then show ?thesis using ih ab fb by (simp add: failed_rounds_simps)
  qed
qed

lemma loop_success:
  assumes "int j < maxRetries df" "\<not> doneBefore ctx j" "snd (f j) = None"
  shows "fetchWithRetry_loop df ctx f j le tr = ((fst (f j), None), tr @ [Attempt j])"
  using assms by (cases "f j") (simp add: fetchWithRetry_loop.simps [of df ctx f j le tr])

lemma loop_last_failure:
  assumes "int j = maxRetries df - 1" "\<not> doneBefore ctx j" "snd (f j) = Some err"
  shows "fetchWithRetry_loop df ctx f j le tr = ((DNil, Some err), tr @ [Attempt j])"
proof -
  have "fetchWithRetry_loop df ctx f j le tr =
        fetchWithRetry_loop df ctx f (j + 1) (Some err) (tr @ [Attempt j])"
    using assms by (cases "f j") (simp add: fetchWithRetry_loop.simps [of df ctx f j le tr])
  also have "\<dots> = ((DNil, Some err), tr @ [Attempt j])"
    using assms(1) by (subst fetchWithRetry_loop.simps) simp
  finally show ?thesis .
qed

lemma loop_sleep_cancelled:
  assumes "int j < maxRetries df - 1" "\<not> doneBefore ctx j" "snd (f j) \<noteq> None" "doneInSleep ctx j"
  shows "fetchWithRetry_loop df ctx f j le tr =
           ((DNil, Some (ctxErr ctx)), tr @ [Attempt j, SleepAborted])"
  using assms by (cases "f j") (auto simp: fetchWithRetry_loop.simps [of df ctx f j le tr])

lemma length_fetch_tasks: "length (fetch_tasks df views client) = 4"
  by (simp add: fetch_tasks_def)

lemma upt_4: "[0..<4] = [0, 1, 2, Suc 2]"
  by (simp add: upt_rec)

lemma results_by_id_fetch:
  "results_by_id (fetch_tasks df views client) arr =
     [\<lparr>ID = 0, Value = fst (task_outcome df views client 0),
        Error = snd (task_outcome df views client 0), Elapsed = the (map_of arr 0)\<rparr>,
      \<lparr>ID = 1, Value = fst (task_outcome df views client 1),
        Error = snd (task_outcome df views client 1), Elapsed = the (map_of arr 1)\<rparr>,
      \<lparr>ID = 2, Value = fst (task_outcome df views client 2),
        Error = snd (task_outcome df views client 2), Elapsed = the (map_of arr 2)\<rparr>,
      \<lparr>ID = 3, Value = fst (task_outcome df views client 3),
        Error = snd (task_outcome df views client 3), Elapsed = the (map_of arr 3)\<rparr>]"
  by (simp add: results_by_id_def length_fetch_tasks upt_4 worker_result_def task_outcome_def
      numeral_3_eq_3)

lemma field_value_success:
  "field_value 0 (DSystemStatus p, None) = p"
  "field_value 1 (DDeviceList p, None) = p"
  "field_value (Suc 0) (DDeviceList p, None) = p"
  "field_value 2 (DWanInfo p, None) = p"
  "field_value 3 (DWifiDetailAll p, None) = p"
  by (simp_all add: field_value_def routed_def)

lemma FetchData_complete:
  assumes perm: "mset (map fst arr) = mset [0..<4]"
  shows "FetchData df views client (arrivals arr @ ss) =
     Done (Some \<lparr>SystemStatus = field_value 0 (task_outcome df views client 0),
                 DeviceList = field_value 1 (task_outcome df views client 1),
                 WanInfo = field_value 2 (task_outcome df views client 2),
                 WifiDetails = field_value 3 (task_outcome df views client 3)\<rparr>,
           map_option (Errorf ''some data fetches failed'')
             (first_error (map (\<lambda>i. snd (task_outcome df views client i)) [0, 1, 2, 3])))"
proof -
  let ?tasks = "fetch_tasks df views client"
  let ?rs = "results_by_id ?tasks arr"
  have p: "mset (map fst arr) = mset [0..<length ?tasks]"
    using perm by (simp only: length_fetch_tasks)
  have ne: "?tasks \<noteq> []"
    by (simp add: fetch_tasks_def)
  have ex: "ExecuteWithTimeout ?tasks (timeout df) (arrivals arr @ ss) = Done (Some ?rs, None)"
    using p ne by (rule ExecuteWithTimeout_all)
  have rs: "?rs = [?rs ! 0, ?rs ! 1, ?rs ! 2, ?rs ! 3]"
    by (simp add: results_by_id_fetch)
  have ids: "ID (?rs ! 0) = 0" "ID (?rs ! 1) = 1" "ID (?rs ! 2) = 2" "ID (?rs ! 3) = 3"
    by (simp_all add: results_by_id_fetch)
  have data: "fst (process_results ?rs empty_RouterData None) =
      \<lparr>SystemStatus = field_value 0 (task_outcome df views client 0),
       DeviceList = field_value 1 (task_outcome df views client 1),
       WanInfo = field_value 2 (task_outcome df views client 2),
       WifiDetails = field_value 3 (task_outcome df views client 3)\<rparr>"
    apply (subst rs)
    apply (subst process_results_four [OF ids])
    apply (simp add: empty_RouterData_def results_by_id_fetch field_value_def field_of_def)
    done
  have err: "snd (process_results ?rs empty_RouterData None) =
      first_error (map (\<lambda>i. snd (task_outcome df views client i)) [0, 1, 2, 3])"
  proof -
    have "snd (process_results ?rs empty_RouterData None) = first_error (map Error ?rs)"
      by (simp only: process_results_error option.case)
    then show ?thesis by (simp add: results_by_id_fetch)
  qed
  let ?d = "\<lparr>SystemStatus = field_value 0 (task_outcome df views client 0),
       DeviceList = field_value 1 (task_outcome df views client 1),
       WanInfo = field_value 2 (task_outcome df views client 2),
       WifiDetails = field_value 3 (task_outcome df views client 3)\<rparr>"
  let ?e = "first_error (map (\<lambda>i. snd (task_outcome df views client i)) [0, 1, 2, 3])"
  have pr: "process_results ?rs empty_RouterData None = (?d, ?e)"
    using data err by (metis prod.collapse)
  have "FetchData df views client (arrivals arr @ ss) =
      (case process_results ?rs empty_RouterData None of
         (data, Some fe) \<Rightarrow> Done (Some data, Some (Errorf ''some data fetches failed'' fe))
       | (data, None) \<Rightarrow> Done (Some data, None))"
    by (simp add: FetchData_def ex)
  also have "\<dots> =
      (case (?d, ?e) of
         (data, Some fe) \<Rightarrow> Done (Some data, Some (Errorf ''some data fetches failed'' fe))
       | (data, None) \<Rightarrow> Done (Some data, None))"
    by (simp only: pr)
  finally show ?thesis by (cases ?e) simp_all
qed

lemma collect_interrupted:
  assumes "\<forall>(i, el) \<in> set arr. i < length results \<and> ID (f i el) = i"
    and "received + length arr < tot"
  shows "collect tot tmo results received (map (\<lambda>(i, el). GotResult (f i el)) arr @ TimerFired # evs) =
           Done (None, Some (TimeoutError tmo (received + length arr) tot ''task execution timeout''))"
    and "collect tot tmo results received (map (\<lambda>(i, el). GotResult (f i el)) arr @ CtxDone err # evs) =
           Done (None, Some err)"
  using assms
proof (induction arr arbitrary: results received)
  case Nil
  { case 1 then show ?case by simp }
  { case 2 then show ?case by simp }
next
  case (Cons a arr)
  obtain i el where a: "a = (i, el)" by (cases a)
  { case 1
    have "collect tot tmo results received (map (\<lambda>(i, el). GotResult (f i el)) (a # arr) @ TimerFired # evs)
        = collect tot tmo (results[i := f i el]) (received + 1)
            (map (\<lambda>(i, el). GotResult (f i el)) arr @ TimerFired # evs)"
      using 1 a by simp
    also have "\<dots> = Done (None, Some (TimeoutError tmo (received + 1 + length arr) tot ''task execution timeout''))"
      using 1 by (intro Cons.IH(1)) auto
    finally show ?case by simp }
  { case 2
    have "collect tot tmo results received (map (\<lambda>(i, el). GotResult (f i el)) (a # arr) @ CtxDone err # evs)
        = collect tot tmo (results[i := f i el]) (received + 1)
            (map (\<lambda>(i, el). GotResult (f i el)) arr @ CtxDone err # evs)"
      using 2 a by simp
    also have "\<dots> = Done (None, Some err)"
      using 2 by (intro Cons.IH(2)) auto
    finally show ?case by simp }
qed

lemma ExecuteWithTimeout_interrupted:
  assumes short: "length arr < length tasks" and inr: "\<forall>(i, el) \<in> set arr. i < length tasks"
  shows "ExecuteWithTimeout tasks tmo (arrivals arr @ TimerFires # ss) =
           Done (None, Some (TimeoutError tmo (length arr) (length tasks) ''task execution timeout''))"
    and "ExecuteWithTimeout tasks tmo (arrivals arr @ CtxFires err # ss) = Done (None, Some err)"
proof -
  let ?n = "length tasks"
  let ?nt = "number_tasks 0 tasks"
  let ?f = "\<lambda>i el. worker_result (?nt ! i) el"
  let ?init = "replicate ?n (zero_Result :: 'a Result)"
  have inr': "\<forall>(i, el) \<in> set arr. i < length ?nt"
    using inr by (simp add: length_number_tasks)
  have ids: "\<forall>(i, el) \<in> set arr. i < length ?init \<and> ID (?f i el) = i"
    using inr by (auto simp: worker_result_def nth_number_tasks)
  have ne: "length tasks \<noteq> 0" using short by auto
  have d1: "delivered ?nt (arrivals arr @ TimerFires # ss) =
      map (\<lambda>(i, el). GotResult (?f i el)) arr @ TimerFired # delivered ?nt ss"
    using delivered_arrivals [OF inr', of "TimerFires # ss"] by simp
  have d2: "delivered ?nt (arrivals arr @ CtxFires err # ss) =
      map (\<lambda>(i, el). GotResult (?f i el)) arr @ CtxDone err # delivered ?nt ss"
    using delivered_arrivals [OF inr', of "CtxFires err # ss"] by simp
  show "ExecuteWithTimeout tasks tmo (arrivals arr @ TimerFires # ss) =
           Done (None, Some (TimeoutError tmo (length arr) (length tasks) ''task execution timeout''))"
    using collect_interrupted(1) [OF ids, of 0 ?n tmo "delivered ?nt ss"] short ne
    by (simp add: ExecuteWithTimeout_def d1)
  show "ExecuteWithTimeout tasks tmo (arrivals arr @ CtxFires err # ss) = Done (None, Some err)"
    using collect_interrupted(2) [OF ids, of 0 ?n tmo err "delivered ?nt ss"] short ne
    by (simp add: ExecuteWithTimeout_def d2)
qed

lemma FetchData_interrupted:
  assumes short: "length arr < 4" and inr: "\<forall>(i, el) \<in> set arr. i < 4"
  shows "FetchData df views client (arrivals arr @ TimerFires # ss) =
           Done (None, Some (Errorf ''failed to fetch data concurrently''
             (TimeoutError (timeout df) (length arr) 4 ''task execution timeout'')))"
    and "FetchData df views client (arrivals arr @ CtxFires err # ss) =
           Done (None, Some (Errorf ''failed to fetch data concurrently'' err))"
proof -
  let ?tasks = "fetch_tasks df views client"
  have s: "length arr < length ?tasks" using short by (simp only: length_fetch_tasks)
  have i: "\<forall>(i, el) \<in> set arr. i < length ?tasks" using inr by (simp only: length_fetch_tasks)
  show "FetchData df views client (arrivals arr @ TimerFires # ss) =
           Done (None, Some (Errorf ''failed to fetch data concurrently''
             (TimeoutError (timeout df) (length arr) 4 ''task execution timeout'')))"
    using ExecuteWithTimeout_interrupted(1) [OF s i, of "timeout df" ss]
    by (simp add: FetchData_def length_fetch_tasks)
  show "FetchData df views client (arrivals arr @ CtxFires err # ss) =
           Done (None, Some (Errorf ''failed to fetch data concurrently'' err))"
    using ExecuteWithTimeout_interrupted(2) [OF s i, of "timeout df" err ss]
    by (simp add: FetchData_def)
qed

lemma fetchWithRetry_first_success:
  assumes "0 < maxRetries df" "\<not> doneBefore ctx 0" "snd (f 0) = None"
  shows "fst (fetchWithRetry df ctx f) = (fst (f 0), None)"
  using loop_success [of 0 df ctx f None "[]"] assms by (simp add: fetchWithRetry_def)

lemma fetchWithRetry_success:
  assumes "int j < maxRetries df" "\<forall>i<j. snd (f i) \<noteq> None" "snd (f j) = None"
    "\<forall>i\<le>j. \<not> doneBefore ctx i" "\<forall>i<j. \<not> doneInSleep ctx i"
  shows "fetchWithRetry df ctx f = ((fst (f j), None), failed_rounds (retryDelay df) 0 j @ [Attempt j])"
proof -
  have "fetchWithRetry_loop df ctx f 0 None [] =
        fetchWithRetry_loop df ctx f j (if 0 < j then snd (f (j - 1)) else None)
          ([] @ failed_rounds (retryDelay df) 0 j)"
    using assms by (intro loop_failed_rounds) auto
  also have "\<dots> = ((fst (f j), None), ([] @ failed_rounds (retryDelay df) 0 j) @ [Attempt j])"
    using assms by (intro loop_success) auto
  finally show ?thesis by (simp add: fetchWithRetry_def)
qed

lemma fetchWithRetry_exhausted:
  assumes "0 < maxRetries df" "k = nat (maxRetries df) - 1"
    "\<forall>i\<le>k. snd (f i) \<noteq> None \<and> \<not> doneBefore ctx i" "\<forall>i<k. \<not> doneInSleep ctx i"
  shows "fetchWithRetry df ctx f = ((DNil, snd (f k)), failed_rounds (retryDelay df) 0 k @ [Attempt k])"
proof -
  have k: "int k = maxRetries df - 1" using assms(1,2) by simp
  obtain err where err: "snd (f k) = Some err" using assms(3) by auto
  have "fetchWithRetry_loop df ctx f 0 None [] =
        fetchWithRetry_loop df ctx f k (if 0 < k then snd (f (k - 1)) else None)
          ([] @ failed_rounds (retryDelay df) 0 k)"
    using assms k by (intro loop_failed_rounds) auto
  also have "\<dots> = ((DNil, Some err), ([] @ failed_rounds (retryDelay df) 0 k) @ [Attempt k])"
    using assms k err by (intro loop_last_failure) auto
  finally show ?thesis using err by (simp add: fetchWithRetry_def)
qed

lemma fetchWithRetry_cancelled:
  assumes "int c < maxRetries df - 1"
    "\<forall>i\<le>c. snd (f i) \<noteq> None \<and> \<not> doneBefore ctx i" "\<forall>i<c. \<not> doneInSleep ctx i"
    "doneInSleep ctx c"
  shows "fetchWithRetry df ctx f =
    ((DNil, Some (ctxErr ctx)), failed_rounds (retryDelay df) 0 c @ [Attempt c, SleepAborted])"
proof -
  have "fetchWithRetry_loop df ctx f 0 None [] =
        fetchWithRetry_loop df ctx f c (if 0 < c then snd (f (c - 1)) else None)
          ([] @ failed_rounds (retryDelay df) 0 c)"
    using assms by (intro loop_failed_rounds) auto
  also have "\<dots> = ((DNil, Some (ctxErr ctx)),
      ([] @ failed_rounds (retryDelay df) 0 c) @ [Attempt c, SleepAborted])"
    using assms by (intro loop_sleep_cancelled) auto
  finally show ?thesis by (simp add: fetchWithRetry_def)
qed

text \<open>
  Claim C8. \<open>fetchWithRetry\<close> calls the fetch function at most \<open>maxRetries\<close> times. If
  the call \<open>j\<close> is the first to succeed, its value is returned after the calls
  \<open>0, ..., j\<close>, with a sleep of \<open>retryDelay\<close> between consecutive calls and no call
  after it. If all \<open>maxRetries\<close> calls fail, the error of the last one is returned, and no
  sleep follows the last call. If the context is done during the sleep after call \<open>c\<close>,
  the context's error is returned at once: the sleep is cut short and no further call is
  made.
\<close>

theorem retry_policy:
  "length (filter is_attempt (snd (fetchWithRetry df ctx f))) \<le> nat (maxRetries df)
   \<and> (int j < maxRetries df \<and> (\<forall>i<j. snd (f i) \<noteq> None) \<and> snd (f j) = None
        \<and> (\<forall>i\<le>j. \<not> doneBefore ctx i) \<and> (\<forall>i<j. \<not> doneInSleep ctx i) \<longrightarrow>
      fetchWithRetry df ctx f =
        ((fst (f j), None), failed_rounds (retryDelay df) 0 j @ [Attempt j]))
   \<and> (0 < maxRetries df \<and> k = nat (maxRetries df) - 1
        \<and> (\<forall>i\<le>k. snd (g i) \<noteq> None \<and> \<not> doneBefore ctx i) \<and> (\<forall>i<k. \<not> doneInSleep ctx i) \<longrightarrow>
      fetchWithRetry df ctx g =
        ((DNil, snd (g k)), failed_rounds (retryDelay df) 0 k @ [Attempt k]))
   \<and> (int c < maxRetries df - 1
        \<and> (\<forall>i\<le>c. snd (g i) \<noteq> None \<and> \<not> doneBefore ctx' i) \<and> (\<forall>i<c. \<not> doneInSleep ctx' i)
        \<and> doneInSleep ctx' c \<longrightarrow>
      fetchWithRetry df ctx' g =
        ((DNil, Some (ctxErr ctx')),
         failed_rounds (retryDelay df) 0 c @ [Attempt c, SleepAborted]))"
proof -
  have bound: "length (filter is_attempt (snd (fetchWithRetry df ctx f))) \<le> nat (maxRetries df)"
    using loop_attempts_bound [of df ctx f 0 None "[]"] by (simp add: fetchWithRetry_def)
  show ?thesis
    using bound fetchWithRetry_success [of j df f ctx] fetchWithRetry_exhausted [of df k g ctx]
      fetchWithRetry_cancelled [of c df g ctx']
    by blast
qed

text \<open>Three attempts allowed: success on the second call, three failures, and a
  cancellation during the first sleep.\<close>

theorem retry_policy_witness:
  "length (filter is_attempt (snd (fetchWithRetry example_fetcher quiet_view second_try))) \<le> 3
   \<and> fetchWithRetry example_fetcher quiet_view second_try =
       ((DWanInfo (Some 7), None), [Attempt 0, Slept 1000000, Attempt 1])
   \<and> fetchWithRetry example_fetcher quiet_view always_fails =
       ((DNil, Some (ClientError ''unreachable'')),
        [Attempt 0, Slept 1000000, Attempt 1, Slept 1000000, Attempt 2])
   \<and> fetchWithRetry example_fetcher cancelled_in_first_sleep always_fails =
       ((DNil, Some Canceled), [Attempt 0, SleepAborted])"
  using retry_policy [of example_fetcher quiet_view second_try 1 2 always_fails 0
      cancelled_in_first_sleep]
  by (simp add: example_fetcher_def quiet_view_def second_try_def always_fails_def
      cancelled_in_first_sleep_def failed_rounds_def upt_rec less_Suc_eq le_Suc_eq all_conj_distrib)

lemma task_outcome_unfold:
  "task_outcome df views client 0 = fst (fetchWithRetry df (views 0)
      (\<lambda>i. (DSystemStatus (fst (GetSystemStatus client i)), snd (GetSystemStatus client i))))"
  "task_outcome df views client (Suc 0) = fst (fetchWithRetry df (views (Suc 0))
      (\<lambda>i. (DDeviceList (fst (GetDeviceList client i)), snd (GetDeviceList client i))))"
  "task_outcome df views client 2 = fst (fetchWithRetry df (views 2)
      (\<lambda>i. (DWanInfo (fst (GetWanInfo client i)), snd (GetWanInfo client i))))"
  "task_outcome df views client 3 = fst (fetchWithRetry df (views 3)
      (\<lambda>i. (DWifiDetailAll (fst (GetWifiDetails client i)), snd (GetWifiDetails client i))))"
  by (simp_all add: task_outcome_def fetch_tasks_def)

lemma healthy_outcomes:
  "task_outcome example_fetcher quiet_views healthy_client 0 = (DSystemStatus (Some 10), None)"
  "task_outcome example_fetcher quiet_views healthy_client (Suc 0) = (DDeviceList (Some 20), None)"
  "task_outcome example_fetcher quiet_views healthy_client 2 = (DWanInfo (Some 30), None)"
  "task_outcome example_fetcher quiet_views healthy_client 3 = (DWifiDetailAll (Some 40), None)"
  by (simp_all add: task_outcome_unfold fetchWithRetry_first_success example_fetcher_def
      quiet_views_def quiet_view_def healthy_client_def)

lemma flaky_outcomes:
  "task_outcome example_fetcher quiet_views flaky_client 0 = (DSystemStatus (Some 10), None)"
  "task_outcome example_fetcher quiet_views flaky_client (Suc 0) = (DNil, Some (ClientError ''devices''))"
  "task_outcome example_fetcher quiet_views flaky_client 2 = (DWanInfo (Some 30), None)"
  "task_outcome example_fetcher quiet_views flaky_client 3 = (DNil, Some (ClientError ''wifi''))"
proof -
  show "task_outcome example_fetcher quiet_views flaky_client 0 = (DSystemStatus (Some 10), None)"
    by (simp add: task_outcome_unfold fetchWithRetry_first_success example_fetcher_def
      quiet_views_def quiet_view_def flaky_client_def)
  show "task_outcome example_fetcher quiet_views flaky_client 2 = (DWanInfo (Some 30), None)"
    by (simp add: task_outcome_unfold fetchWithRetry_first_success example_fetcher_def
      quiet_views_def quiet_view_def flaky_client_def)
  show "task_outcome example_fetcher quiet_views flaky_client (Suc 0) = (DNil, Some (ClientError ''devices''))"
    using fetchWithRetry_exhausted [of example_fetcher 2 "\<lambda>i. (DDeviceList (fst (GetDeviceList flaky_client i)), snd (GetDeviceList flaky_client i))" quiet_view]
    by (simp add: task_outcome_unfold example_fetcher_def quiet_views_def quiet_view_def
        flaky_client_def)
  show "task_outcome example_fetcher quiet_views flaky_client 3 = (DNil, Some (ClientError ''wifi''))"
    using fetchWithRetry_exhausted [of example_fetcher 2 "\<lambda>i. (DWifiDetailAll (fst (GetWifiDetails flaky_client i)), snd (GetWifiDetails flaky_client i))" quiet_view]
    by (simp add: task_outcome_unfold example_fetcher_def quiet_views_def quiet_view_def
        flaky_client_def)
qed

lemma first_error_simps:
  "first_error [] = None"
  "first_error (None # es) = first_error es"
  "first_error (Some e # es) = Some e"
  by (simp_all add: first_error_def)

lemma first_error_lowest:
  assumes "i < length es" "es ! i = Some e" "\<forall>j<i. es ! j = None"
  shows "first_error es = Some e"
  using assms
proof (induction es arbitrary: i)
  case Nil
  then show ?case by simp
next
  case (Cons a es)
  show ?case
  proof (cases i)
    case 0
    then show ?thesis using Cons.prems by (simp add: first_error_simps)
  next
    case (Suc m)
    have a: "a = None" using Cons.prems(3) Suc by auto
    have "first_error es = Some e"
      using Cons.prems Suc by (intro Cons.IH [of m]) auto
    then show ?thesis using a by (simp add: first_error_simps)
  qed
qed

lemma first_error_some:
  assumes "\<exists>i<length es. es ! i \<noteq> None"
  shows "first_error es \<noteq> None"
  using assms
proof (induction es)
  case Nil
  then show ?case by simp
next
  case (Cons a es)
  show ?case
  proof (cases a)
    case None
    from Cons.prems obtain i where i: "i < length (a # es)" "(a # es) ! i \<noteq> None" by blast
    then have "i \<noteq> 0" using None by (cases i) auto
    then obtain m where "i = Suc m" by (cases i) auto
    then have "\<exists>i<length es. es ! i \<noteq> None" using i by auto
    then show ?thesis using Cons.IH None by (simp add: first_error_simps)
  next
    case (Some e)
    then show ?thesis by (simp add: first_error_simps)
  qed
qed

text \<open>
  Claim C1, as stated, fails: it says that on a timeout \<open>FetchData\<close> returns a partial
  snapshot with the fields that arrived. With a timeout of 50 ms and results arriving
  after 10, 20 and 30 ms before the timer fires, the error is the timeout error with
  \<open>Received = 3\<close> and \<open>Total = 4\<close>, but the snapshot is nil.
\<close>

theorem timeout_discards_results:
  "FetchData example_fetcher quiet_views healthy_client
     (arrivals [(0, 10000000), (1, 20000000), (2, 30000000)] @ [TimerFires]) =
   Done (None, Some (Errorf ''failed to fetch data concurrently''
     (TimeoutError 50000000 3 4 ''task execution timeout'')))"
  using FetchData_interrupted(1)
    [of "[(0, 10000000), (1, 20000000), (2, 30000000)]" example_fetcher quiet_views healthy_client "[]"]
  by (simp add: example_fetcher_def)

text \<open>
  Claim C1, amended. If fewer than four results have arrived when the collector takes
  its timer, \<open>FetchData\<close> returns no snapshot and the timeout error, wrapped, carrying the
  number of results received and the total 4; if it takes the context's \<open>Done\<close> instead,
  it returns no snapshot and the context's error, wrapped.
\<close>

theorem fetch_timeout_error:
  "length arr < 4 \<and> (\<forall>(i, el) \<in> set arr. i < 4) \<longrightarrow>
     FetchData df views client (arrivals arr @ TimerFires # ss) =
       Done (None, Some (Errorf ''failed to fetch data concurrently''
         (TimeoutError (timeout df) (length arr) 4 ''task execution timeout'')))
     \<and> FetchData df views client (arrivals arr @ CtxFires err # ss) =
       Done (None, Some (Errorf ''failed to fetch data concurrently'' err))"
  using FetchData_interrupted(1) [of arr df views client ss]
    FetchData_interrupted(2) [of arr df views client err ss]
  by blast

text \<open>Three results, then the timer or the context.\<close>

theorem fetch_timeout_error_witness:
  "FetchData example_fetcher quiet_views healthy_client
     (arrivals [(1, 20000000), (0, 10000000), (2, 30000000)] @ TimerFires # []) =
       Done (None, Some (Errorf ''failed to fetch data concurrently''
         (TimeoutError (timeout example_fetcher) 3 4 ''task execution timeout'')))
   \<and> FetchData example_fetcher quiet_views healthy_client
     (arrivals [(1, 20000000), (0, 10000000), (2, 30000000)] @ CtxFires DeadlineExceeded # []) =
       Done (None, Some (Errorf ''failed to fetch data concurrently'' DeadlineExceeded))"
  using fetch_timeout_error
    [where arr = "[(1, 20000000), (0, 10000000), (2, 30000000)]" and df = example_fetcher
       and views = quiet_views and client = healthy_client and ss = "[]"
       and err = DeadlineExceeded]
  by simp

text \<open>
  Claim C2, as stated, fails: it says that the error returned is the first by arrival
  order. When the device list (task 1) and the Wi-Fi details (task 3) fail and the result
  of task 3 arrives first, the error returned is that of task 1.
\<close>

theorem error_not_by_arrival:
  "snd (task_outcome example_fetcher quiet_views flaky_client 3) = Some (ClientError ''wifi'')
   \<and> FetchData example_fetcher quiet_views flaky_client
       (arrivals [(3, 10), (1, 20), (0, 30), (2, 40)]) =
     Done (Some \<lparr>SystemStatus = Some 10, DeviceList = None, WanInfo = Some 30, WifiDetails = None\<rparr>,
           Some (Errorf ''some data fetches failed'' (ClientError ''devices'')))"
proof -
  have "mset (map fst [(3::nat, 10::int), (1, 20), (0, 30), (2, 40)]) = mset [0..<4]"
    by (simp add: upt_4)
  from FetchData_complete [OF this, of example_fetcher quiet_views flaky_client "[]"]
  show ?thesis
    by (simp add: flaky_outcomes field_value_def routed_def first_error_simps)
qed

text \<open>
  Claim C2, amended. When all four results arrive, in whatever order, and some tasks
  fail, the error \<open>FetchData\<close> returns beside the snapshot wraps the error of the failed
  task with the smallest id.
\<close>

theorem error_by_lowest_id:
  "mset (map fst arr) = mset [0..<4] \<and> i < 4
     \<and> snd (task_outcome df views client i) = Some e
     \<and> (\<forall>j<i. snd (task_outcome df views client j) = None) \<longrightarrow>
   (\<exists>data. FetchData df views client (arrivals arr @ ss) =
      Done (Some data, Some (Errorf ''some data fetches failed'' e)))"
proof
  assume a: "mset (map fst arr) = mset [0..<4] \<and> i < 4
     \<and> snd (task_outcome df views client i) = Some e
     \<and> (\<forall>j<i. snd (task_outcome df views client j) = None)"
  let ?es = "map (\<lambda>i. snd (task_outcome df views client i)) [0, 1, 2, 3]"
  have nth: "?es ! j = snd (task_outcome df views client j)" if "j < 4" for j
  proof -
    from that have "j = 0 \<or> j = 1 \<or> j = 2 \<or> j = 3" by auto
    then show ?thesis by auto
  qed
  have "first_error ?es = Some e"
  proof (rule first_error_lowest [of i])
    show "i < length ?es" using a by simp
    show "?es ! i = Some e" using a nth [of i] by simp
    show "\<forall>j<i. ?es ! j = None"
    proof (intro allI impI)
      fix j assume "j < i"
      then have "j < 4" using a by simp
      then show "?es ! j = None" using nth [of j] a \<open>j < i\<close> by simp
    qed
  qed
  then show "\<exists>data. FetchData df views client (arrivals arr @ ss) =
      Done (Some data, Some (Errorf ''some data fetches failed'' e))"
    using FetchData_complete [of arr df views client ss] a by simp
qed

text \<open>Tasks 1 and 3 fail, task 3 arrives first.\<close>

theorem error_by_lowest_id_witness:
  "\<exists>data. FetchData example_fetcher quiet_views flaky_client
      (arrivals [(3, 10), (1, 20), (0, 30), (2, 40)] @ []) =
    Done (Some data, Some (Errorf ''some data fetches failed'' (ClientError ''devices'')))"
  using error_by_lowest_id [of "[(3, 10), (1, 20), (0, 30), (2, 40)]" 1 example_fetcher quiet_views
      flaky_client "ClientError ''devices''" "[]"]
  by (simp add: upt_4 flaky_outcomes)

text \<open>
  Claim C7. When all four results arrive, in whatever order, and at least one task has
  failed, \<open>FetchData\<close> returns a snapshot together with a non-nil error, and every field
  whose task succeeded holds the pointer that task returned.
\<close>

theorem partial_snapshot_kept:
  "mset (map fst arr) = mset [0..<4] \<and> i < 4 \<and> snd (task_outcome df views client i) \<noteq> None \<longrightarrow>
   (\<exists>data err. FetchData df views client (arrivals arr @ ss) = Done (Some data, Some err)
      \<and> (\<forall>p. task_outcome df views client 0 = (DSystemStatus p, None) \<longrightarrow> SystemStatus data = p)
      \<and> (\<forall>p. task_outcome df views client 1 = (DDeviceList p, None) \<longrightarrow> DeviceList data = p)
      \<and> (\<forall>p. task_outcome df views client 2 = (DWanInfo p, None) \<longrightarrow> WanInfo data = p)
      \<and> (\<forall>p. task_outcome df views client 3 = (DWifiDetailAll p, None) \<longrightarrow> WifiDetails data = p))"
proof
  assume a: "mset (map fst arr) = mset [0..<4] \<and> i < 4
      \<and> snd (task_outcome df views client i) \<noteq> None"
  let ?es = "map (\<lambda>i. snd (task_outcome df views client i)) [0, 1, 2, 3]"
  let ?d = "\<lparr>SystemStatus = field_value 0 (task_outcome df views client 0),
             DeviceList = field_value 1 (task_outcome df views client 1),
             WanInfo = field_value 2 (task_outcome df views client 2),
             WifiDetails = field_value 3 (task_outcome df views client 3)\<rparr>"
  from a have "i = 0 \<or> i = 1 \<or> i = 2 \<or> i = 3" by auto
  then have "?es ! i = snd (task_outcome df views client i)" by auto
  moreover have "i < length ?es" using a by simp
  ultimately have "\<exists>i<length ?es. ?es ! i \<noteq> None" using a by metis
  then have "first_error ?es \<noteq> None" by (rule first_error_some)
  then obtain e where e: "first_error ?es = Some e" by auto
  have run: "FetchData df views client (arrivals arr @ ss) =
      Done (Some ?d, Some (Errorf ''some data fetches failed'' e))"
    using FetchData_complete [of arr df views client ss] a e by simp
  have f0: "\<forall>p. task_outcome df views client 0 = (DSystemStatus p, None) \<longrightarrow> SystemStatus ?d = p"
    by (simp add: field_value_success)
  have f1: "\<forall>p. task_outcome df views client 1 = (DDeviceList p, None) \<longrightarrow> DeviceList ?d = p"
    by (simp add: field_value_success)
  have f2: "\<forall>p. task_outcome df views client 2 = (DWanInfo p, None) \<longrightarrow> WanInfo ?d = p"
    by (simp add: field_value_success)
  have f3: "\<forall>p. task_outcome df views client 3 = (DWifiDetailAll p, None) \<longrightarrow> WifiDetails ?d = p"
    by (simp add: field_value_success)
  from run f0 f1 f2 f3
  show "\<exists>data err. FetchData df views client (arrivals arr @ ss) = Done (Some data, Some err)
      \<and> (\<forall>p. task_outcome df views client 0 = (DSystemStatus p, None) \<longrightarrow> SystemStatus data = p)
      \<and> (\<forall>p. task_outcome df views client 1 = (DDeviceList p, None) \<longrightarrow> DeviceList data = p)
      \<and> (\<forall>p. task_outcome df views client 2 = (DWanInfo p, None) \<longrightarrow> WanInfo data = p)
      \<and> (\<forall>p. task_outcome df views client 3 = (DWifiDetailAll p, None) \<longrightarrow> WifiDetails data = p)"
    by blast
qed

text \<open>The device list and the Wi-Fi details fail after three attempts each.\<close>

theorem partial_snapshot_kept_witness:
  "snd (task_outcome example_fetcher quiet_views flaky_client 1) \<noteq> None
   \<and> task_outcome example_fetcher quiet_views flaky_client 0 = (DSystemStatus (Some 10), None)
   \<and> task_outcome example_fetcher quiet_views flaky_client 2 = (DWanInfo (Some 30), None)
   \<and> (\<exists>data err. FetchData example_fetcher quiet_views flaky_client
          (arrivals [(2, 5), (0, 7), (3, 8), (1, 40)] @ []) = Done (Some data, Some err)
        \<and> SystemStatus data = Some 10 \<and> WanInfo data = Some 30)"
  using partial_snapshot_kept [of "[(2, 5), (0, 7), (3, 8), (1, 40)]" 1 example_fetcher quiet_views
      flaky_client "[]"]
  by (simp add: upt_4 flaky_outcomes)

lemma results_by_id_perm:
  assumes "mset (map fst arr) = mset [0..<n]" "mset arr' = mset arr"
  shows "results_by_id tasks arr' = results_by_id tasks arr"
proof -
  have d: "distinct (map fst arr)" using perm_upt_facts(1) [OF assms(1)] .
  have "mset (map fst arr') = mset (map fst arr)" using assms(2) by (metis mset_map)
  then have d': "distinct (map fst arr')" using d by (metis mset_eq_imp_distinct_iff)
  have "set arr' = set arr" using assms(2) by (rule mset_eq_setD)
  then have "map_of arr' = map_of arr" using d d' by (simp add: map_of_inject_set)
  then show ?thesis by (simp add: results_by_id_def)
qed

text \<open>
  Claim C9. For two arrival orders of the same four results, the collector returns the
  same slice and \<open>FetchData\<close> the same snapshot and error; each field of the snapshot is
  determined by the outcome of the task with the field's id.
\<close>

theorem snapshot_order_invariant:
  "mset (map fst arr) = mset [0..<4] \<and> mset arr' = mset arr \<longrightarrow>
     ExecuteWithTimeout (fetch_tasks df views client) (timeout df) (arrivals arr' @ ss') =
       ExecuteWithTimeout (fetch_tasks df views client) (timeout df) (arrivals arr @ ss)
   \<and> FetchData df views client (arrivals arr' @ ss') = FetchData df views client (arrivals arr @ ss)
   \<and> (\<exists>data err. FetchData df views client (arrivals arr @ ss) = Done (Some data, err)
        \<and> SystemStatus data = field_value 0 (task_outcome df views client 0)
        \<and> DeviceList data = field_value 1 (task_outcome df views client 1)
        \<and> WanInfo data = field_value 2 (task_outcome df views client 2)
        \<and> WifiDetails data = field_value 3 (task_outcome df views client 3))"
proof
  assume a: "mset (map fst arr) = mset [0..<4] \<and> mset arr' = mset arr"
  let ?tasks = "fetch_tasks df views client"
  have p: "mset (map fst arr) = mset [0..<length ?tasks]"
    using a by (simp only: length_fetch_tasks)
  have "mset (map fst arr') = mset (map fst arr)" using a by (metis mset_map)
  then have p4': "mset (map fst arr') = mset [0..<4]" using a by simp
  then have p': "mset (map fst arr') = mset [0..<length ?tasks]"
    by (simp only: length_fetch_tasks)
  have ne: "?tasks \<noteq> []" by (simp add: fetch_tasks_def)
  have same: "results_by_id ?tasks arr' = results_by_id ?tasks arr"
    using a by (intro results_by_id_perm [of arr 4]) simp_all
  have ex: "ExecuteWithTimeout ?tasks (timeout df) (arrivals arr' @ ss') =
       ExecuteWithTimeout ?tasks (timeout df) (arrivals arr @ ss)"
    using ExecuteWithTimeout_all [OF p ne, of "timeout df" ss]
      ExecuteWithTimeout_all [OF p' ne, of "timeout df" ss'] same by simp
  have fd: "FetchData df views client (arrivals arr' @ ss') = FetchData df views client (arrivals arr @ ss)"
    using ex by (simp add: FetchData_def)
  have "\<exists>data err. FetchData df views client (arrivals arr @ ss) = Done (Some data, err)
        \<and> SystemStatus data = field_value 0 (task_outcome df views client 0)
        \<and> DeviceList data = field_value 1 (task_outcome df views client 1)
        \<and> WanInfo data = field_value 2 (task_outcome df views client 2)
        \<and> WifiDetails data = field_value 3 (task_outcome df views client 3)"
    using FetchData_complete [of arr df views client ss] a by simp
  with ex fd show "ExecuteWithTimeout (fetch_tasks df views client) (timeout df) (arrivals arr' @ ss') =
       ExecuteWithTimeout (fetch_tasks df views client) (timeout df) (arrivals arr @ ss)
   \<and> FetchData df views client (arrivals arr' @ ss') = FetchData df views client (arrivals arr @ ss)
   \<and> (\<exists>data err. FetchData df views client (arrivals arr @ ss) = Done (Some data, err)
        \<and> SystemStatus data = field_value 0 (task_outcome df views client 0)
        \<and> DeviceList data = field_value 1 (task_outcome df views client 1)
        \<and> WanInfo data = field_value 2 (task_outcome df views client 2)
        \<and> WifiDetails data = field_value 3 (task_outcome df views client 3))"
    by blast
qed

text \<open>Two orders of the four results of the healthy client.\<close>

theorem snapshot_order_invariant_witness:
  "FetchData example_fetcher quiet_views healthy_client
     (arrivals [(3, 8), (1, 40), (2, 5), (0, 7)] @ []) =
   FetchData example_fetcher quiet_views healthy_client
     (arrivals [(2, 5), (0, 7), (3, 8), (1, 40)] @ [])
   \<and> (\<exists>data err. FetchData example_fetcher quiet_views healthy_client
         (arrivals [(2, 5), (0, 7), (3, 8), (1, 40)] @ []) = Done (Some data, err)
        \<and> SystemStatus data = Some 10 \<and> DeviceList data = Some 20
        \<and> WanInfo data = Some 30 \<and> WifiDetails data = Some 40)"
proof -
  have perm: "mset [(3::nat, 8::int), (1, 40), (2, 5), (0, 7)] = mset [(2, 5), (0, 7), (3, 8), (1, 40)]"
    by (simp add: add_mset_commute)
  have ids: "mset (map fst [(2::nat, 5::int), (0, 7), (3, 8), (1, 40)]) = mset [0..<4]"
    by (simp add: upt_4 add_mset_commute)
  show ?thesis
    using snapshot_order_invariant [of "[(2, 5), (0, 7), (3, 8), (1, 40)]"
      "[(3, 8), (1, 40), (2, 5), (0, 7)]" example_fetcher quiet_views healthy_client "[]" "[]"]
      perm ids
    by (simp add: healthy_outcomes field_value_success)
qed

section \<open>Properties of the worker pool\<close>

lemma all_exited_nth:
  "all_exited s \<Longrightarrow> i < length (procs s) \<Longrightarrow> procs s ! i = Exited"
  by (simp add: all_exited_def)

lemma stop_order_start: "stop_order (started_pool n tasks)"
  by (simp add: stop_order_def started_pool_def)

lemma stop_order_step:
  assumes "pool_step s s'" and "stop_order s"
  shows "stop_order s'"
  using assms
proof (induction rule: pool_step.induct)
  case (stop_wait s)
  then show ?case by (simp add: stop_order_def all_exited_def)
next
  case (worker_takes i s t q)
  then show ?case by (auto simp: stop_order_def dest: all_exited_nth)
next
  case (worker_sees_closed i s)
  then show ?case by (auto simp: stop_order_def dest: all_exited_nth)
next
  case (worker_sees_cancel i s)
  then show ?case by (auto simp: stop_order_def dest: all_exited_nth)
next
  case (worker_runs i s t el)
  then show ?case by (auto simp: stop_order_def dest: all_exited_nth)
next
  case (worker_sends i s r)
  then show ?case by (auto simp: stop_order_def dest: all_exited_nth)
next
  case (worker_sends_closed i s r)
  then show ?case by (auto simp: stop_order_def dest: all_exited_nth)
next
  case (worker_drops i s r)
  then show ?case by (auto simp: stop_order_def dest: all_exited_nth)
qed (auto simp: stop_order_def all_exited_def)

lemma stop_order_reach:
  assumes "pool_reach s s'" and "stop_order s"
  shows "stop_order s'"
  using assms by (induction rule: pool_reach.induct) (auto intro: stop_order_step)

lemma held_update:
  "i < length ws \<Longrightarrow> held (ws[i := w]) + holds (ws ! i) = held ws + holds w"
proof (induction ws arbitrary: i)
  case Nil
  then show ?case by simp
next
  case (Cons a ws)
  then show ?case by (cases i) (simp_all add: ac_simps)
qed

lemma held_update_empty:
  "i < length ws \<Longrightarrow> holds (ws ! i) = {#} \<Longrightarrow> held (ws[i := w]) = held ws + holds w"
  using held_update [of i ws w] by simp

lemma held_update_drop:
  "i < length ws \<Longrightarrow> holds w = {#} \<Longrightarrow> held (ws[i := w]) \<subseteq># held ws"
  using held_update [of i ws w] by (metis add.right_neutral mset_subset_eq_add_left)

lemma held_update_move:
  "i < length ws \<Longrightarrow> holds (ws ! i) = holds w \<Longrightarrow> held (ws[i := w]) = held ws"
  using held_update [of i ws w] by simp

lemma result_sig_worker_result: "result_sig (worker_result t el) = task_sig t"
  by (simp add: result_sig_def task_sig_def worker_result_def)

lemma accounted_step:
  assumes "pool_step s s'"
  shows "accounted s' \<subseteq># accounted s"
  using assms
proof (induction rule: pool_step.induct)
  case (worker_takes i s t q)
  then have "held ((procs s)[i := Running t]) = held (procs s) + {#task_sig t#}"
    using held_update_empty [of i "procs s" "Running t"] by simp
  then show ?case using worker_takes by (simp add: accounted_def)
next
  case (worker_sees_closed i s)
  then have "held ((procs s)[i := Exited]) = held (procs s)"
    using held_update_move [of i "procs s" Exited] by simp
  then show ?case by (simp add: accounted_def)
next
  case (worker_sees_cancel i s)
  then have "held ((procs s)[i := Exited]) = held (procs s)"
    using held_update_move [of i "procs s" Exited] by simp
  then show ?case by (simp add: accounted_def)
next
  case (worker_runs i s t el)
  then have "held ((procs s)[i := Sending (worker_result t el)]) = held (procs s)"
    using held_update_move [of i "procs s" "Sending (worker_result t el)"]
    by (simp add: result_sig_worker_result)
  then show ?case by (simp add: accounted_def)
next
  case (worker_sends i s r)
  then have "held ((procs s)[i := AtSelect]) + {#result_sig r#} = held (procs s)"
    using held_update [of i "procs s" AtSelect] by simp
  then show ?case by (simp add: accounted_def add.assoc [symmetric])
next
  case (worker_drops i s r)
  then have "held ((procs s)[i := Exited]) \<subseteq># held (procs s)"
    using held_update_drop [of i "procs s" Exited] by simp
  then show ?case by (simp add: accounted_def)
qed (simp_all add: accounted_def)

lemma accounted_reach:
  assumes "pool_reach s s'"
  shows "accounted s' \<subseteq># accounted s"
  using assms
  by (induction rule: pool_reach.induct) (auto dest: accounted_step intro: subset_mset.order_trans)

lemma held_replicate: "held (replicate n AtSelect) = {#}"
  by (induction n) simp_all

lemma accounted_start: "accounted (started_pool n tasks) = mset (map task_sig tasks)"
  by (simp add: accounted_def started_pool_def held_replicate)

text \<open>
  Claim C4, as stated, fails: it says that all results are observable on the result
  channel before it closes. A pool of one worker is given one task; \<open>Stop\<close> cancels the
  context, the worker takes the \<open>Done\<close> case of its \<open>select\<close> and returns, and \<open>Stop\<close> closes
  the result channel on which nothing was ever sent.
\<close>

theorem stop_can_drop_results:
  "pool_reach (started_pool 1 [example_task])
     \<lparr>workers = 1, taskChan = [example_task], taskClosed = True, resultChan = [],
      resultClosed = True, cancelled = True, procs = [Exited], caller = Stopped, sent = [],
      panicked = False\<rparr>"
proof -
  let ?s0 = "\<lparr>workers = 1, taskChan = [], taskClosed = False, resultChan = [],
      resultClosed = False, cancelled = False, procs = [AtSelect],
      caller = Submitting [example_task], sent = [], panicked = False\<rparr>"
  let ?s1 = "\<lparr>workers = 1, taskChan = [example_task], taskClosed = False, resultChan = [],
      resultClosed = False, cancelled = False, procs = [AtSelect],
      caller = Submitting [], sent = [], panicked = False\<rparr>"
  let ?s2 = "\<lparr>workers = 1, taskChan = [example_task], taskClosed = False, resultChan = [],
      resultClosed = False, cancelled = True, procs = [AtSelect],
      caller = StopCloseTasks, sent = [], panicked = False\<rparr>"
  let ?s3 = "\<lparr>workers = 1, taskChan = [example_task], taskClosed = False, resultChan = [],
      resultClosed = False, cancelled = True, procs = [Exited],
      caller = StopCloseTasks, sent = [], panicked = False\<rparr>"
  let ?s4 = "\<lparr>workers = 1, taskChan = [example_task], taskClosed = True, resultChan = [],
      resultClosed = False, cancelled = True, procs = [Exited],
      caller = StopWait, sent = [], panicked = False\<rparr>"
  let ?s5 = "\<lparr>workers = 1, taskChan = [example_task], taskClosed = True, resultChan = [],
      resultClosed = False, cancelled = True, procs = [Exited],
      caller = StopCloseResults, sent = [], panicked = False\<rparr>"
  let ?s6 = "\<lparr>workers = 1, taskChan = [example_task], taskClosed = True, resultChan = [],
      resultClosed = True, cancelled = True, procs = [Exited],
      caller = Stopped, sent = [], panicked = False\<rparr>"
  have s0: "started_pool 1 [example_task] = ?s0"
    by (simp add: started_pool_def)
  have "pool_step ?s0 (?s0\<lparr>taskChan := taskChan ?s0 @ [example_task], caller := Submitting []\<rparr>)"
    by (rule submit_send) (simp_all add: chan_cap_def)
  then have 1: "pool_step ?s0 ?s1" by simp
  have "pool_step ?s1 (?s1\<lparr>cancelled := True, caller := StopCloseTasks\<rparr>)"
    by (rule stop_cancel) simp
  then have 2: "pool_step ?s1 ?s2" by simp
  have "pool_step ?s2 (?s2\<lparr>procs := (procs ?s2)[0 := Exited]\<rparr>)"
    by (rule worker_sees_cancel) simp_all
  then have 3: "pool_step ?s2 ?s3" by simp
  have "pool_step ?s3 (?s3\<lparr>taskClosed := True, caller := StopWait\<rparr>)"
    by (rule stop_close_tasks) simp_all
  then have 4: "pool_step ?s3 ?s4" by simp
  have "pool_step ?s4 (?s4\<lparr>caller := StopCloseResults\<rparr>)"
    by (rule stop_wait) simp_all
  then have 5: "pool_step ?s4 ?s5" by simp
  have "pool_step ?s5 (?s5\<lparr>resultClosed := True, caller := Stopped\<rparr>)"
    by (rule stop_close_results) simp_all
  then have 6: "pool_step ?s5 ?s6" by simp
  have "pool_reach ?s0 ?s6"
    using 1 2 3 4 5 6 by (meson pool_reach.intros)
  then show ?thesis by (simp only: s0)
qed

text \<open>
  Claim C4, amended. In every state a started pool can reach while its owner submits a
  batch and then calls \<open>Stop\<close>, no goroutine has panicked (so nothing was sent on the
  closed result channel, and no channel was closed twice), the result channel is closed
  only after every worker has returned, and the results sent on the result channel are
  results of distinct submitted tasks.
\<close>

theorem stop_is_safe:
  "pool_reach (started_pool n tasks) s \<longrightarrow>
     \<not> panicked s \<and> (resultClosed s \<longrightarrow> all_exited s)
     \<and> mset (map result_sig (sent s)) \<subseteq># mset (map task_sig tasks)"
proof
  assume r: "pool_reach (started_pool n tasks) s"
  have so: "stop_order s"
    using r stop_order_start by (rule stop_order_reach)
  have "accounted s \<subseteq># mset (map task_sig tasks)"
    using accounted_reach [OF r] by (simp add: accounted_start)
  moreover have "mset (map result_sig (sent s)) \<subseteq># accounted s"
    by (simp add: accounted_def)
  ultimately have "mset (map result_sig (sent s)) \<subseteq># mset (map task_sig tasks)"
    by (rule subset_mset.order_trans [rotated])
  then show "\<not> panicked s \<and> (resultClosed s \<longrightarrow> all_exited s)
     \<and> mset (map result_sig (sent s)) \<subseteq># mset (map task_sig tasks)"
    using so by (auto simp: stop_order_def)
qed

text \<open>A run in which the one task is run and its result sent before \<open>Stop\<close>.\<close>

theorem stop_is_safe_witness:
  "pool_reach (started_pool 1 [example_task])
     \<lparr>workers = 1, taskChan = [], taskClosed = True,
      resultChan = [worker_result example_task 5], resultClosed = True, cancelled = True,
      procs = [Exited], caller = Stopped, sent = [worker_result example_task 5],
      panicked = False\<rparr>
   \<and> mset (map result_sig [worker_result example_task 5]) \<subseteq># mset (map task_sig [example_task])"
proof -
  let ?r = "worker_result example_task 5"
  let ?s0 = "\<lparr>workers = 1, taskChan = [], taskClosed = False, resultChan = [],
      resultClosed = False, cancelled = False, procs = [AtSelect],
      caller = Submitting [example_task], sent = [], panicked = False\<rparr>"
  let ?s1 = "\<lparr>workers = 1, taskChan = [example_task], taskClosed = False, resultChan = [],
      resultClosed = False, cancelled = False, procs = [AtSelect],
      caller = Submitting [], sent = [], panicked = False\<rparr>"
  let ?s2 = "\<lparr>workers = 1, taskChan = [], taskClosed = False, resultChan = [],
      resultClosed = False, cancelled = False, procs = [Running example_task],
      caller = Submitting [], sent = [], panicked = False\<rparr>"
  let ?s3 = "\<lparr>workers = 1, taskChan = [], taskClosed = False, resultChan = [],
      resultClosed = False, cancelled = False, procs = [Sending ?r],
      caller = Submitting [], sent = [], panicked = False\<rparr>"
  let ?s4 = "\<lparr>workers = 1, taskChan = [], taskClosed = False, resultChan = [?r],
      resultClosed = False, cancelled = False, procs = [AtSelect],
      caller = Submitting [], sent = [?r], panicked = False\<rparr>"
  let ?s5 = "\<lparr>workers = 1, taskChan = [], taskClosed = False, resultChan = [?r],
      resultClosed = False, cancelled = True, procs = [AtSelect],
      caller = StopCloseTasks, sent = [?r], panicked = False\<rparr>"
  let ?s6 = "\<lparr>workers = 1, taskChan = [], taskClosed = True, resultChan = [?r],
      resultClosed = False, cancelled = True, procs = [AtSelect],
      caller = StopWait, sent = [?r], panicked = False\<rparr>"
  let ?s7 = "\<lparr>workers = 1, taskChan = [], taskClosed = True, resultChan = [?r],
      resultClosed = False, cancelled = True, procs = [Exited],
      caller = StopWait, sent = [?r], panicked = False\<rparr>"
  let ?s8 = "\<lparr>workers = 1, taskChan = [], taskClosed = True, resultChan = [?r],
      resultClosed = False, cancelled = True, procs = [Exited],
      caller = StopCloseResults, sent = [?r], panicked = False\<rparr>"
  let ?s9 = "\<lparr>workers = 1, taskChan = [], taskClosed = True, resultChan = [?r],
      resultClosed = True, cancelled = True, procs = [Exited],
      caller = Stopped, sent = [?r], panicked = False\<rparr>"
  have s0: "started_pool 1 [example_task] = ?s0"
    by (simp add: started_pool_def)
  have "pool_step ?s0 (?s0\<lparr>taskChan := taskChan ?s0 @ [example_task], caller := Submitting []\<rparr>)"
    by (rule submit_send) (simp_all add: chan_cap_def)
  then have 1: "pool_step ?s0 ?s1" by simp
  have "pool_step ?s1 (?s1\<lparr>taskChan := [], procs := (procs ?s1)[0 := Running example_task]\<rparr>)"
    by (rule worker_takes) simp_all
  then have 2: "pool_step ?s1 ?s2" by simp
  have "pool_step ?s2 (?s2\<lparr>procs := (procs ?s2)[0 := Sending (worker_result example_task 5)]\<rparr>)"
    by (rule worker_runs) simp_all
  then have 3: "pool_step ?s2 ?s3" by simp
  have "pool_step ?s3 (?s3\<lparr>resultChan := resultChan ?s3 @ [?r], sent := sent ?s3 @ [?r],
      procs := (procs ?s3)[0 := AtSelect]\<rparr>)"
    by (rule worker_sends) (simp_all add: chan_cap_def)
  then have 4: "pool_step ?s3 ?s4" by simp
  have "pool_step ?s4 (?s4\<lparr>cancelled := True, caller := StopCloseTasks\<rparr>)"
    by (rule stop_cancel) simp
  then have 5: "pool_step ?s4 ?s5" by simp
  have "pool_step ?s5 (?s5\<lparr>taskClosed := True, caller := StopWait\<rparr>)"
    by (rule stop_close_tasks) simp_all
  then have 6: "pool_step ?s5 ?s6" by simp
  have "pool_step ?s6 (?s6\<lparr>procs := (procs ?s6)[0 := Exited]\<rparr>)"
    by (rule worker_sees_closed) simp_all
  then have 7: "pool_step ?s6 ?s7" by simp
  have "pool_step ?s7 (?s7\<lparr>caller := StopCloseResults\<rparr>)"
    by (rule stop_wait) simp_all
  then have 8: "pool_step ?s7 ?s8" by simp
  have "pool_step ?s8 (?s8\<lparr>resultClosed := True, caller := Stopped\<rparr>)"
    by (rule stop_close_results) simp_all
  then have 9: "pool_step ?s8 ?s9" by simp
  have "pool_reach ?s0 ?s9"
    using 1 2 3 4 5 6 7 8 9 by (meson pool_reach.intros)
  then have reach: "pool_reach (started_pool 1 [example_task]) ?s9" by (simp only: s0)
  show ?thesis
    using reach stop_is_safe [of 1 "[example_task]" ?s9] by simp
qed

end
